theory Spec2Isabelle
  imports Complex_Main "HOL-Library.Log_Nat"
begin

section \<open>Exceptions, awaited calls and traces\<close>

text \<open>
  The exceptions the feed distinguishes. \<open>CancelledError\<close> is the cancellation signal of
  the event loop, \<open>ConnectionError\<close> the connection-level failure of the stream; the
  others are ordinary exceptions, caught by \<open>except Exception\<close>.
\<close>

datatype exn = CancelledError | ConnectionError | IndexError | OtherException

text \<open>
  How a coroutine (or one iteration of a \<open>while True\<close> loop) ends: it completes, an
  exception leaves it, or it stays suspended for ever.
\<close>

datatype outcome = Done | Raised exn | Blocked

text \<open>
  What a coroutine does that the rest of the system can observe: the calls to its
  collaborators, the log records and the timed waits, in program order.
\<close>

datatype action =
    FetchCandles real int
  | Connect
  | Subscribe
  | WaitReady
  | Close
  | Sleep nat
  | LogInfo
  | LogWarning
  | LogError
  | LogException

section \<open>The bounded deque and slices\<close>

text \<open>
  \<open>collections.deque(maxlen=n)\<close>: an insertion at one end that makes the deque longer
  than \<open>maxlen\<close> discards one item from the other end. \<open>extendleft\<close> inserts the items
  of its argument one at a time at the left end, in iteration order.
\<close>

definition deque_append :: "nat \<Rightarrow> 'a list \<Rightarrow> 'a \<Rightarrow> 'a list" where
  "deque_append n xs x = (let ys = xs @ [x] in if length ys > n then tl ys else ys)"

definition deque_appendleft :: "nat \<Rightarrow> 'a list \<Rightarrow> 'a \<Rightarrow> 'a list" where
  "deque_appendleft n xs x = (let ys = x # xs in if length ys > n then butlast ys else ys)"

definition deque_extendleft :: "nat \<Rightarrow> 'a list \<Rightarrow> 'a list \<Rightarrow> 'a list" where
  "deque_extendleft n xs it = foldl (deque_appendleft n) xs it"

text \<open>
  A slice \<open>xs[i:j]\<close> with step 1: a negative bound counts from the end, and both bounds
  are clamped to the length.
\<close>

definition slice_bound :: "int \<Rightarrow> int \<Rightarrow> int" where
  "slice_bound n i = (if i < 0 then max 0 (n + i) else min n i)"

definition py_slice :: "'a list \<Rightarrow> int \<Rightarrow> int \<Rightarrow> 'a list" where
  "py_slice xs i j =
     (let n = int (length xs); a = slice_bound n i; b = slice_bound n j
      in take (nat (b - a)) (drop (nat a) xs))"

section \<open>The feed\<close>

text \<open>
  A candle is a one-dimensional array of doubles; a cell is modelled by the number it
  holds. Column 0 is the open time (\<open>timestamp\<close>).
\<close>

type_synonym row = "real list"

record feed =
  candles :: "row list"
  maxlen :: nat
  ws_ready_event :: bool

definition init :: "nat \<Rightarrow> feed" where
  "init max_records = \<lparr>candles = [], maxlen = max_records, ws_ready_event = False\<rparr>"

definition is_ready :: "feed \<Rightarrow> bool" where
  "is_ready s = (length (candles s) = maxlen s)"

text \<open>\<open>missing_records = self._candles.maxlen - len(self._candles)\<close>\<close>

definition missing_records :: "feed \<Rightarrow> int" where
  "missing_records s = int (maxlen s) - int (length (candles s))"

text \<open>\<open>a[0]\<close> on a one-dimensional array, and \<open>int(x)\<close> on a number.\<close>

definition column0 :: "row \<Rightarrow> exn + real" where
  "column0 r = (case r of [] \<Rightarrow> Inl IndexError | x # _ \<Rightarrow> Inr x)"

definition py_int :: "real \<Rightarrow> int" where
  "py_int x = (if 0 \<le> x then \<lfloor>x\<rfloor> else \<lceil>x\<rceil>)"

subsection \<open>The live stream consumer\<close>

record kline =
  k_t :: int
  k_o :: real
  k_l :: real
  k_h :: real
  k_c :: real
  k_v :: real
  k_T :: int
  k_q :: real
  k_n :: int
  k_V :: real
  k_Q :: real

text \<open>
  The payload of a stream message: \<open>None\<close> when the socket is disconnected, an event
  that is not a kline, or a kline event.
\<close>

datatype ws_data = NoData | OtherEvent | KlineEvent kline

text \<open>
  \<open>np.array\<close> of the integer and floating-point fields of a kline is an array of
  doubles: an integer field is rounded to the nearest double, ties to even. An integer
  of at most 53 bits is kept; a longer one is rounded to 53 significant bits.
  (Integers beyond the 64-bit range are not meant.)
\<close>

definition float64_of_int :: "int \<Rightarrow> int" where
  "float64_of_int t =
     (let n = bitlen \<bar>t\<bar> in
      if n \<le> 53 then t
      else
        (let u = 2 ^ nat (n - 53); q = \<bar>t\<bar> div u; r = \<bar>t\<bar> mod u;
             q' = (if u < 2 * r \<or> (2 * r = u \<and> odd q) then q + 1 else q)
         in sgn t * (q' * u)))"

definition kline_row :: "kline \<Rightarrow> row" where
  "kline_row k =
     [of_int (float64_of_int (k_t k)), k_o k, k_l k, k_h k, k_c k, k_v k,
      of_int (float64_of_int (k_T k)), k_q k, of_int (float64_of_int (k_n k)),
      k_V k, k_Q k]"

text \<open>The body of the \<open>async for\<close> of \<open>_process_websocket_messages\<close>, for one message.\<close>

definition process_websocket_message :: "feed \<Rightarrow> ws_data \<Rightarrow> exn + feed" where
  "process_websocket_message s data =
     (case data of
        KlineEvent k \<Rightarrow>
          (if length (candles s) = 0 then
             Inr (s\<lparr>candles := deque_append (maxlen s) (candles s) (kline_row k),
                    ws_ready_event := True\<rparr>)
           else
             (case column0 (last (candles s)) of
                Inl e \<Rightarrow> Inl e
              | Inr t0 \<Rightarrow>
                  (if k_t k \<noteq> py_int t0 then
                     Inr (s\<lparr>candles := deque_append (maxlen s) (candles s) (kline_row k),
                            ws_ready_event := True\<rparr>)
                   else Inr (s\<lparr>ws_ready_event := True\<rparr>))))
      | _ \<Rightarrow> Inr s)"

text \<open>
  \<open>_process_websocket_messages\<close> over the messages of one connection: an exception of
  the body ends the iteration, and the mutations made before it stay.
\<close>

fun process_websocket_messages :: "feed \<Rightarrow> ws_data list \<Rightarrow> feed \<times> exn option" where
  "process_websocket_messages s [] = (s, None)"
| "process_websocket_messages s (d # ds) =
     (case process_websocket_message s d of
        Inl e \<Rightarrow> (s, Some e)
      | Inr s' \<Rightarrow> process_websocket_messages s' ds)"

text \<open>
  The effect on the feed of messages handled by the listen task while another task is
  suspended: a message whose handling raises leaves the feed as it was.
\<close>

definition deliver1 :: "feed \<Rightarrow> ws_data \<Rightarrow> feed" where
  "deliver1 s d = (case process_websocket_message s d of Inl e \<Rightarrow> s | Inr s' \<Rightarrow> s')"

fun deliver :: "feed \<Rightarrow> ws_data list \<Rightarrow> feed" where
  "deliver s [] = s"
| "deliver s (d # ds) = deliver (deliver1 s d) ds"

subsection \<open>The historical-range request\<close>

text \<open>
  \<open>fetch_candles\<close> after its request has been awaited: \<open>response\<close> is the outcome of
  \<open>execute_request\<close>, either an exception or the rows of the reply, and \<open>to_float\<close> is
  the conversion \<open>astype(np.float)\<close> of one cell. \<open>np.array(candles)[:, :-1]\<close> needs a
  two-dimensional array: an empty reply, or rows of different widths, make a
  one-dimensional array, and indexing it twice raises \<open>IndexError\<close>.
\<close>

definition fetch_candles :: "('a \<Rightarrow> real) \<Rightarrow> exn + 'a list list \<Rightarrow> exn + row list" where
  "fetch_candles to_float response =
     (case response of
        Inl e \<Rightarrow> Inl e
      | Inr rows \<Rightarrow>
          (if rows = [] \<or> \<not> list_all (\<lambda>r. length r = length (hd rows)) rows
           then Inl IndexError
           else Inr (map (\<lambda>r. map to_float (butlast r)) rows)))"

subsection \<open>The backfill loop\<close>

text \<open>\<open>end_timestamp = self._candles[0][0]\<close>\<close>

definition end_timestamp :: "feed \<Rightarrow> exn + real" where
  "end_timestamp s = (case candles s of [] \<Rightarrow> Inl IndexError | r # _ \<Rightarrow> column0 r)"

text \<open>
  The two statements after the awaited fetch: the missing count is read again and
  \<open>candles[-(missing_records + 1):-1][::-1]\<close> is pushed on the left.
\<close>

definition kept_rows :: "feed \<Rightarrow> row list \<Rightarrow> row list" where
  "kept_rows s rows = py_slice rows (- (missing_records s + 1)) (- 1)"

definition extend_with :: "feed \<Rightarrow> row list \<Rightarrow> feed" where
  "extend_with s rows =
     s\<lparr>candles := deque_extendleft (maxlen s) (candles s) (rev (kept_rows s rows))\<rparr>"

text \<open>
  One iteration of \<open>fill_candles_loop\<close>. \<open>during\<close> are the stream messages that the
  listen task handles while the fetch is awaited, \<open>response\<close> is the outcome of the
  request, \<open>sleep_cancelled\<close> tells whether the task is cancelled in the final sleep.
  The trace has the call of \<open>fetch_candles\<close> with its arguments; the parameters that
  the call sends are \<open>fetch_params\<close>, below.
\<close>

definition fill_candles_body ::
  "('a \<Rightarrow> real) \<Rightarrow> feed \<Rightarrow> ws_data list \<Rightarrow> exn + 'a list list \<Rightarrow> feed \<times> action list \<times> outcome"
where
  "fill_candles_body to_float s during response =
     (if ws_ready_event s then
        (if missing_records s > 0 then
           (case end_timestamp s of
              Inl e \<Rightarrow> (s, [], Raised e)
            | Inr ts \<Rightarrow>
                (let request = FetchCandles ts (missing_records s + 1);
                     s1 = deliver s during
                 in case fetch_candles to_float response of
                      Inl e \<Rightarrow>
                        (if e = CancelledError then (s1, [request], Raised CancelledError)
                         else (s1, [request, LogException], Done))
                    | Inr rows \<Rightarrow> (extend_with s1 rows, [request], Done)))
         else (s, [], Done))
      else (s, [], Done))"

definition fill_candles_iteration ::
  "('a \<Rightarrow> real) \<Rightarrow> feed \<Rightarrow> ws_data list \<Rightarrow> exn + 'a list list \<Rightarrow> bool
     \<Rightarrow> feed \<times> action list \<times> outcome"
where
  "fill_candles_iteration to_float s during response sleep_cancelled =
     (case fill_candles_body to_float s during response of
        (s', tr, Done) \<Rightarrow>
          (s', tr @ [Sleep 1], if sleep_cancelled then Raised CancelledError else Done)
      | (s', tr, r) \<Rightarrow> (s', tr, r))"

definition requests :: "action list \<Rightarrow> action list" where
  "requests tr = filter (\<lambda>a. case a of FetchCandles _ _ \<Rightarrow> True | _ \<Rightarrow> False) tr"

text \<open>
  The parameters of the request that \<open>fetch_candles\<close> sends, beside the symbol and the
  interval of the feed: the limit, and \<open>startTime\<close> and \<open>endTime\<close> when the argument
  is given and is true as a condition, that is, not zero. The backfill loop calls
  \<open>fetch_candles(end_time=end_timestamp, limit=missing_records + 1)\<close>, with no start
  time; \<open>sent\<close> are the parameters of the requests of a trace.
\<close>

record params =
  p_limit :: int
  p_startTime :: "real option"
  p_endTime :: "real option"

definition fetch_params :: "real option \<Rightarrow> real option \<Rightarrow> int \<Rightarrow> params" where
  "fetch_params start_time end_time limit =
     \<lparr>p_limit = limit,
      p_startTime = (case start_time of
                       None \<Rightarrow> None
                     | Some t \<Rightarrow> if t \<noteq> 0 then Some t else None),
      p_endTime = (case end_time of
                     None \<Rightarrow> None
                   | Some t \<Rightarrow> if t \<noteq> 0 then Some t else None)\<rparr>"

fun sent :: "action list \<Rightarrow> params list" where
  "sent [] = []"
| "sent (FetchCandles ts limit # tr) = fetch_params None (Some ts) limit # sent tr"
| "sent (a # tr) = sent tr"

subsection \<open>The feed under both loops\<close>

text \<open>
  What changes the buffer of a feed with one backfill task: a stream message handled by
  the listen task, or one iteration of the backfill loop, with the messages handled
  while its fetch is awaited. (The feed with several backfill tasks is \<open>tasks_run\<close>,
  below.)
\<close>

datatype 'a event = LiveMessage ws_data | BackfillTick "ws_data list" "exn + 'a list list"

definition feed_step :: "('a \<Rightarrow> real) \<Rightarrow> feed \<Rightarrow> 'a event \<Rightarrow> feed" where
  "feed_step to_float s ev =
     (case ev of
        LiveMessage d \<Rightarrow> deliver1 s d
      | BackfillTick during response \<Rightarrow>
          fst (fill_candles_iteration to_float s during response False))"

fun run :: "('a \<Rightarrow> real) \<Rightarrow> feed \<Rightarrow> 'a event list \<Rightarrow> feed" where
  "run to_float s [] = s"
| "run to_float s (ev # evs) = run to_float (feed_step to_float s ev) evs"

text \<open>
  A reply of the interface has the open time and at least one more column in each row,
  so that a fetched row keeps its open time when its last column is dropped.
\<close>

definition wide_reply :: "'a event \<Rightarrow> bool" where
  "wide_reply ev =
     (case ev of
        LiveMessage d \<Rightarrow> True
      | BackfillTick during response \<Rightarrow>
          (case response of
             Inl e \<Rightarrow> True
           | Inr rows \<Rightarrow> list_all (\<lambda>r. 2 \<le> length r) rows))"

text \<open>
  The buffer invariant: at most \<open>maxlen\<close> records, every record has an open time, and
  the open times increase strictly from the head to the tail.
\<close>

definition ordered :: "row list \<Rightarrow> bool" where
  "ordered rows = (list_all (\<lambda>r. r \<noteq> []) rows \<and> sorted_wrt (<) (map hd rows))"

definition buffer_invariant :: "feed \<Rightarrow> bool" where
  "buffer_invariant s = (length (candles s) \<le> maxlen s \<and> ordered (candles s))"

text \<open>
  The assumptions on the two sources. The stream delivers no kline older than the tail
  of the buffer. Every row that a backfill iteration keeps has an open time strictly
  below the boundary recorded before the fetch; \<open>pushed\<close> are those rows, oldest first.
\<close>

definition live_ok :: "feed \<Rightarrow> ws_data \<Rightarrow> bool" where
  "live_ok s d =
     (case d of
        KlineEvent k \<Rightarrow>
          (case candles s of
             [] \<Rightarrow> True
           | _ # _ \<Rightarrow>
               (case column0 (last (candles s)) of
                  Inl e \<Rightarrow> True
                | Inr t0 \<Rightarrow> t0 \<le> of_int (k_t k)))
      | _ \<Rightarrow> True)"

fun live_run_ok :: "feed \<Rightarrow> ws_data list \<Rightarrow> bool" where
  "live_run_ok s [] = True"
| "live_run_ok s (d # ds) = (live_ok s d \<and> live_run_ok (deliver1 s d) ds)"

definition pushed :: "('a \<Rightarrow> real) \<Rightarrow> feed \<Rightarrow> ws_data list \<Rightarrow> exn + 'a list list \<Rightarrow> row list" where
  "pushed to_float s during response =
     (if ws_ready_event s \<and> missing_records s > 0 then
        (case end_timestamp s of
           Inl e \<Rightarrow> []
         | Inr ts \<Rightarrow>
             (case fetch_candles to_float response of
                Inl e \<Rightarrow> []
              | Inr rows \<Rightarrow> kept_rows (deliver s during) rows))
      else [])"

definition below_boundary :: "feed \<Rightarrow> row list \<Rightarrow> bool" where
  "below_boundary s kept =
     (case end_timestamp s of
        Inl e \<Rightarrow> True
      | Inr ts \<Rightarrow> list_all (\<lambda>r. case column0 r of Inl e \<Rightarrow> False | Inr t \<Rightarrow> t < ts) kept)"

definition stated_assumptions :: "('a \<Rightarrow> real) \<Rightarrow> feed \<Rightarrow> 'a event \<Rightarrow> bool" where
  "stated_assumptions to_float s ev =
     (case ev of
        LiveMessage d \<Rightarrow> live_ok s d
      | BackfillTick during response \<Rightarrow>
          live_run_ok s during \<and> below_boundary s (pushed to_float s during response))"

text \<open>
  What the interface gives beside: the open time of a kline is an integer that a double
  holds (at most \<open>2 ^ 53\<close> in absolute value), and the rows of a reply come oldest
  first, without repeats, so that the kept rows increase strictly.
\<close>

definition exact_open_time :: "ws_data \<Rightarrow> bool" where
  "exact_open_time d = (case d of KlineEvent k \<Rightarrow> \<bar>k_t k\<bar> \<le> 2 ^ 53 | _ \<Rightarrow> True)"

definition interface_assumptions :: "('a \<Rightarrow> real) \<Rightarrow> feed \<Rightarrow> 'a event \<Rightarrow> bool" where
  "interface_assumptions to_float s ev =
     (stated_assumptions to_float s ev \<and>
      (case ev of
         LiveMessage d \<Rightarrow> exact_open_time d
       | BackfillTick during response \<Rightarrow>
           list_all exact_open_time during \<and>
           sorted_wrt (<) (map hd (pushed to_float s during response))))"

fun assumed ::
  "(feed \<Rightarrow> 'a event \<Rightarrow> bool) \<Rightarrow> ('a \<Rightarrow> real) \<Rightarrow> feed \<Rightarrow> 'a event list \<Rightarrow> bool"
where
  "assumed A to_float s [] = True"
| "assumed A to_float s (ev # evs) = (A s ev \<and> assumed A to_float (feed_step to_float s ev) evs)"

subsection \<open>Two backfill tasks\<close>

text \<open>
  \<open>feed_step\<close> and \<open>run\<close> are the feed with one backfill task: while an iteration
  awaits its fetch, only stream messages are handled. When two backfill tasks run, an
  iteration of one can begin, or end, while an iteration of the other is suspended in
  its fetch. An iteration is then two steps: \<open>fill_begin\<close>, the statements before
  the fetch, gives the boundary that the iteration records when it goes on to fetch;
  \<open>fill_resume\<close> is what follows the fetch, on the feed as it is when the fetch
  returns.
\<close>

definition fill_begin :: "feed \<Rightarrow> real option" where
  "fill_begin s =
     (if ws_ready_event s \<and> missing_records s > 0 then
        (case end_timestamp s of Inl e \<Rightarrow> None | Inr ts \<Rightarrow> Some ts)
      else None)"

definition fill_resume :: "('a \<Rightarrow> real) \<Rightarrow> feed \<Rightarrow> exn + 'a list list \<Rightarrow> feed" where
  "fill_resume to_float s1 response =
     (case fetch_candles to_float response of
        Inl e \<Rightarrow> s1
      | Inr rows \<Rightarrow> extend_with s1 rows)"

text \<open>
  The steps of the feed with several backfill tasks: a stream message is handled, task
  \<open>i\<close> begins an iteration, or the fetch of task \<open>i\<close> returns. The second component
  of the state gives, for each task suspended in its fetch, the boundary it recorded.
\<close>

datatype 'a step = Message ws_data | Begin nat | Resume nat "exn + 'a list list"

definition tasks_step ::
  "('a \<Rightarrow> real) \<Rightarrow> feed \<times> (nat \<Rightarrow> real option) \<Rightarrow> 'a step
     \<Rightarrow> feed \<times> (nat \<Rightarrow> real option)"
where
  "tasks_step to_float c st =
     (case c of
        (s, pending) \<Rightarrow>
          (case st of
             Message d \<Rightarrow> (deliver1 s d, pending)
           | Begin i \<Rightarrow>
               (case pending i of
                  None \<Rightarrow> (s, pending(i := fill_begin s))
                | Some b \<Rightarrow> (s, pending))
           | Resume i response \<Rightarrow>
               (case pending i of
                  None \<Rightarrow> (s, pending)
                | Some b \<Rightarrow> (fill_resume to_float s response, pending(i := None)))))"

fun tasks_run ::
  "('a \<Rightarrow> real) \<Rightarrow> feed \<times> (nat \<Rightarrow> real option) \<Rightarrow> 'a step list
     \<Rightarrow> feed \<times> (nat \<Rightarrow> real option)"
where
  "tasks_run to_float c [] = c"
| "tasks_run to_float c (st # sts) = tasks_run to_float (tasks_step to_float c st) sts"

text \<open>
  The assumptions, step by step: a message is no older than the tail and its open time
  is held by a double; the rows that a returning fetch makes its task keep are below
  the boundary that the task recorded, and increase strictly.
\<close>

definition step_assumptions ::
  "('a \<Rightarrow> real) \<Rightarrow> feed \<times> (nat \<Rightarrow> real option) \<Rightarrow> 'a step \<Rightarrow> bool"
where
  "step_assumptions to_float c st =
     (case c of
        (s, pending) \<Rightarrow>
          (case st of
             Message d \<Rightarrow> live_ok s d \<and> exact_open_time d
           | Begin i \<Rightarrow> True
           | Resume i response \<Rightarrow>
               (case pending i of
                  None \<Rightarrow> True
                | Some b \<Rightarrow>
                    (case fetch_candles to_float response of
                       Inl e \<Rightarrow> True
                     | Inr rows \<Rightarrow>
                         list_all (\<lambda>r. case column0 r of Inl e \<Rightarrow> False | Inr t \<Rightarrow> t < b)
                           (kept_rows s rows) \<and>
                         sorted_wrt (<) (map hd (kept_rows s rows))))))"

fun tasks_assumed ::
  "('a \<Rightarrow> real) \<Rightarrow> feed \<times> (nat \<Rightarrow> real option) \<Rightarrow> 'a step list \<Rightarrow> bool"
where
  "tasks_assumed to_float c [] = True"
| "tasks_assumed to_float c (st # sts) =
     (step_assumptions to_float c st \<and> tasks_assumed to_float (tasks_step to_float c st) sts)"

subsection \<open>The reconnect loop\<close>

text \<open>
  \<open>_subscribe_channels\<close>: \<open>send\<close> is the exception of \<open>ws.send\<close>, if any. The wait on
  the readiness event returns at once when the event is set; otherwise the coroutine
  stays suspended until it is cancelled.
\<close>

definition subscribe_channels :: "feed \<Rightarrow> exn option \<Rightarrow> bool \<Rightarrow> action list \<times> outcome" where
  "subscribe_channels s send cancelled_in_wait =
     (case send of
        None \<Rightarrow> ([Subscribe, LogInfo], Done)
      | Some e \<Rightarrow>
          (if e = CancelledError then ([Subscribe], Raised CancelledError)
           else if ws_ready_event s then ([Subscribe, LogError, WaitReady], Raised e)
           else if cancelled_in_wait then ([Subscribe, LogError, WaitReady], Raised CancelledError)
           else ([Subscribe, LogError, WaitReady], Blocked)))"

text \<open>
  What the collaborators do during one iteration of \<open>listen_for_subscriptions\<close>: the
  exception of each awaited call, if any, the messages the stream delivers and how the
  stream ends.
\<close>

record listen_env =
  connect_raises :: "exn option"
  send_raises :: "exn option"
  wait_cancelled :: bool
  stream :: "ws_data list"
  stream_raises :: "exn option"
  sleep_cancelled :: bool
  close_raises :: "exn option"

text \<open>
  The \<open>try\<close> block. \<open>ws\<close> tells whether the variable \<open>ws\<close> holds an assistant; it
  keeps its value when the connection attempt raises.
\<close>

definition listen_try :: "feed \<Rightarrow> bool \<Rightarrow> listen_env \<Rightarrow> feed \<times> bool \<times> action list \<times> outcome" where
  "listen_try s ws env =
     (case connect_raises env of
        Some e \<Rightarrow> (s, ws, [Connect], Raised e)
      | None \<Rightarrow>
          (case subscribe_channels s (send_raises env) (wait_cancelled env) of
             (tr, Done) \<Rightarrow>
               (case process_websocket_messages s (stream env) of
                  (s', Some e) \<Rightarrow> (s', True, Connect # tr, Raised e)
                | (s', None) \<Rightarrow>
                    (s', True, Connect # tr,
                     case stream_raises env of None \<Rightarrow> Done | Some e \<Rightarrow> Raised e))
           | (tr, r) \<Rightarrow> (s, True, Connect # tr, r)))"

text \<open>The \<open>except\<close> clauses, in their order.\<close>

definition listen_except :: "bool \<Rightarrow> outcome \<Rightarrow> action list \<times> outcome" where
  "listen_except cancelled_in_sleep r =
     (case r of
        Raised e \<Rightarrow>
          (if e = CancelledError then ([], Raised CancelledError)
           else if e = ConnectionError then ([LogWarning], Done)
           else ([LogException, Sleep 1],
                 if cancelled_in_sleep then Raised CancelledError else Done))
      | _ \<Rightarrow> ([], r))"

text \<open>\<open>_on_order_stream_interruption\<close>, run by the \<open>finally\<close> clause.\<close>

definition on_order_stream_interruption :: "bool \<Rightarrow> exn option \<Rightarrow> action list \<times> exn option" where
  "on_order_stream_interruption ws close = (if ws then ([Close], close) else ([], None))"

definition listen_iteration ::
  "feed \<Rightarrow> bool \<Rightarrow> listen_env \<Rightarrow> feed \<times> bool \<times> action list \<times> outcome"
where
  "listen_iteration s ws env =
     (case listen_try s ws env of
        (s', ws', tr, r) \<Rightarrow>
          (case listen_except (sleep_cancelled env) r of
             (tr2, Blocked) \<Rightarrow> (s', ws', tr @ tr2, Blocked)
           | (tr2, r2) \<Rightarrow>
               (case on_order_stream_interruption ws' (close_raises env) of
                  (tr3, Some e) \<Rightarrow> (s', ws', tr @ tr2 @ tr3, Raised e)
                | (tr3, None) \<Rightarrow> (s', ws', tr @ tr2 @ tr3, r2))))"

text \<open>
  The \<open>while True\<close> loop over a script of environments, one for each iteration: it
  ends when an exception leaves an iteration or the coroutine stays suspended. At the
  end of the script the loop is still running.
\<close>

fun listen_for_subscriptions ::
  "feed \<Rightarrow> bool \<Rightarrow> listen_env list \<Rightarrow> feed \<times> action list \<times> outcome"
where
  "listen_for_subscriptions s ws [] = (s, [], Done)"
| "listen_for_subscriptions s ws (env # envs) =
     (case listen_iteration s ws env of
        (s', ws', tr, Done) \<Rightarrow>
          (case listen_for_subscriptions s' ws' envs of
             (s'', tr', r) \<Rightarrow> (s'', tr @ tr', r))
      | (s', ws', tr, r) \<Rightarrow> (s', tr, r))"

text \<open>
  A cancellation raised inside one iteration, before its \<open>finally\<close> clause: the \<open>try\<close>
  block ends in it, or it arrives in the sleep of the generic handler.
\<close>

definition cancelled_in_listen :: "feed \<Rightarrow> bool \<Rightarrow> listen_env \<Rightarrow> bool" where
  "cancelled_in_listen s ws env =
     (case listen_try s ws env of
        (s', ws', tr, Raised e) \<Rightarrow>
          e = CancelledError \<or> (e \<noteq> ConnectionError \<and> sleep_cancelled env)
      | _ \<Rightarrow> False)"

section \<open>Starting and stopping the tasks\<close>

datatype coroutine = FillCandlesLoop | ListenForSubscriptions

text \<open>
  The task attributes of the feed and the tasks of the event loop that have been
  scheduled and not cancelled. \<open>fill_candles_task\<close> is the attribute that
  \<open>start_network\<close> assigns; it does not exist before the first start.
\<close>

record network =
  fetch_candles_task :: "nat option"
  fill_candles_task :: "nat option"
  listen_candles_task :: "nat option"
  running :: "(nat \<times> coroutine) list"
  spawned :: nat

definition network_init :: network where
  "network_init =
     \<lparr>fetch_candles_task = None, fill_candles_task = None, listen_candles_task = None,
      running = [], spawned = 0\<rparr>"

definition cancel :: "nat \<Rightarrow> network \<Rightarrow> network" where
  "cancel t n = n\<lparr>running := filter (\<lambda>p. fst p \<noteq> t) (running n)\<rparr>"

definition safe_ensure_future :: "coroutine \<Rightarrow> network \<Rightarrow> nat \<times> network" where
  "safe_ensure_future c n =
     (spawned n, n\<lparr>running := running n @ [(spawned n, c)], spawned := Suc (spawned n)\<rparr>)"

definition stop_network :: "network \<Rightarrow> network" where
  "stop_network n =
     (let n1 = (case fetch_candles_task n of
                  None \<Rightarrow> n
                | Some t \<Rightarrow> (cancel t n)\<lparr>fetch_candles_task := None\<rparr>)
      in case listen_candles_task n1 of
           None \<Rightarrow> n1
         | Some t \<Rightarrow> (cancel t n1)\<lparr>listen_candles_task := None\<rparr>)"

definition start_network :: "network \<Rightarrow> network" where
  "start_network n =
     (let n1 = stop_network n;
          (t1, n2) = safe_ensure_future FillCandlesLoop n1;
          n3 = n2\<lparr>fill_candles_task := Some t1\<rparr>;
          (t2, n4) = safe_ensure_future ListenForSubscriptions n3
      in n4\<lparr>listen_candles_task := Some t2\<rparr>)"

definition loops_running :: "coroutine \<Rightarrow> network \<Rightarrow> nat" where
  "loops_running c n = length (filter (\<lambda>p. snd p = c) (running n))"

section \<open>Sample data\<close>

definition sample_kline :: "int \<Rightarrow> real \<Rightarrow> kline" where
  "sample_kline t c =
     \<lparr>k_t = t, k_o = 1, k_l = 1, k_h = 2, k_c = c, k_v = 5, k_T = t + 99,
      k_q = 7, k_n = 3, k_V = 2, k_Q = 4\<rparr>"

definition sample_reply_row :: "int \<Rightarrow> int list" where
  "sample_reply_row t = [t, 1, 1, 2, 2, 5, t + 99, 7, 3, 2, 4, 0]"

definition full_feed :: feed where
  "full_feed =
     \<lparr>candles = [kline_row (sample_kline 100 2), kline_row (sample_kline 200 2)],
      maxlen = 2, ws_ready_event = True\<rparr>"

definition live_feed :: "nat \<Rightarrow> feed" where
  "live_feed n =
     \<lparr>candles = [kline_row (sample_kline 300 2)], maxlen = n, ws_ready_event = True\<rparr>"

text \<open>No backfill task is suspended.\<close>

definition idle :: "nat \<Rightarrow> real option" where
  "idle = (\<lambda>i. None)"

text \<open>
  Two backfill tasks whose iterations overlap: both begin on the buffer 300 and get the
  reply 100, 200, 300.
\<close>

definition overlapping_run :: "int step list" where
  "overlapping_run =
     [Message (KlineEvent (sample_kline 300 2)),
      Begin 0,
      Begin 1,
      Resume 0 (Inr [sample_reply_row 100, sample_reply_row 200, sample_reply_row 300]),
      Resume 1 (Inr [sample_reply_row 100, sample_reply_row 200, sample_reply_row 300])]"

text \<open>Two klines whose open times a double does not tell apart.\<close>

definition rounded_run :: "int event list" where
  "rounded_run =
     [LiveMessage (KlineEvent (sample_kline 9007199254740992 2)),
      LiveMessage (KlineEvent (sample_kline 9007199254740993 2))]"

definition ordered_reply_run :: "int event list" where
  "ordered_reply_run =
     [LiveMessage (KlineEvent (sample_kline 300 2)),
      LiveMessage (KlineEvent (sample_kline 300 9)),
      BackfillTick [KlineEvent (sample_kline 400 2)]
        (Inr [sample_reply_row 100, sample_reply_row 200, sample_reply_row 300]),
      LiveMessage (KlineEvent (sample_kline 500 2))]"

text \<open>An iteration of the listen loop in which every collaborator succeeds.\<close>

definition quiet_env :: listen_env where
  "quiet_env =
     \<lparr>connect_raises = None, send_raises = None, wait_cancelled = False, stream = [],
      stream_raises = None, sleep_cancelled = False, close_raises = None\<rparr>"

section \<open>Evaluation and basic facts\<close>

lemmas tick_defs =
  fill_candles_iteration_def fill_candles_body_def missing_records_def end_timestamp_def
  column0_def fetch_candles_def extend_with_def kept_rows_def py_slice_def slice_bound_def
  deque_extendleft_def deque_appendleft_def deque_append_def

lemmas network_defs =
  start_network_def stop_network_def safe_ensure_future_def cancel_def network_init_def
  loops_running_def

lemma py_int_of_int: "py_int (of_int t) = t"
  by (simp add: py_int_def)

lemma bitlen_le_53: "0 \<le> a \<Longrightarrow> a < 2 ^ 53 \<Longrightarrow> bitlen a \<le> 53"
proof (cases "a = 0")
  case True
  then show ?thesis by simp
next
  case False
  assume "0 \<le> a" and small: "a < 2 ^ 53"
  with False have pos: "0 < a" by simp
  from bitlen_bounds [OF pos] have "(2::int) ^ nat (bitlen a - 1) \<le> a" ..
  also note small
  finally have "nat (bitlen a - 1) < 53"
    by (rule power_less_imp_less_exp [rotated]) simp
  then show ?thesis by simp
qed

lemma bitlen_2_53: "bitlen 9007199254740992 = 54"
  by code_simp

lemma float64_of_int_exact: "\<bar>t\<bar> \<le> 2 ^ 53 \<Longrightarrow> float64_of_int t = t"
proof (cases "\<bar>t\<bar> = 2 ^ 53")
  case True
  then have "float64_of_int t = sgn t * \<bar>t\<bar>"
    by (simp add: float64_of_int_def bitlen_2_53 Let_def)
  then show ?thesis
    by (simp add: mult_sgn_abs)
next
  case False
  assume "\<bar>t\<bar> \<le> 2 ^ 53"
  with False have "\<bar>t\<bar> < 2 ^ 53" by linarith
  then have "bitlen \<bar>t\<bar> \<le> 53"
    by (intro bitlen_le_53) simp_all
  then show ?thesis
    by (simp add: float64_of_int_def Let_def)
qed

lemma float64_of_int_numeral:
  "numeral v \<le> (9007199254740992::int) \<Longrightarrow> float64_of_int (numeral v) = numeral v"
  "float64_of_int 0 = 0"
  by (simp_all add: float64_of_int_exact)

lemma float64_of_int_rounds: "float64_of_int 9007199254740993 = 9007199254740992"
  by code_simp

lemmas sample_defs =
  kline_row_def sample_kline_def sample_reply_row_def float64_of_int_numeral

section \<open>Scenario B: one backfill iteration\<close>

text \<open>
  C2. The buffer has capacity 3 and holds the record with open time 300, written by the
  stream consumer (its close is 9); the readiness event is set. The iteration asks
  for 3 rows up to 300. The reply has the rows 100, 200 and 300, oldest first; its
  row 300 has the close 2, so it differs from the record of the buffer. Of the last 3
  rows of the reply the iteration keeps all but the final one, the rows 100 and 200,
  and pushes them at the head: the buffer becomes 100, 200, 300, and its tail is still
  the record of the stream consumer, not the row 300 of the reply.
\<close>

theorem scenario_B_backfill:
  "fill_candles_iteration real_of_int
     \<lparr>candles = [kline_row (sample_kline 300 9)], maxlen = 3, ws_ready_event = True\<rparr> []
     (Inr [sample_reply_row 100, sample_reply_row 200, sample_reply_row 300]) False
   = (\<lparr>candles = [map real_of_int (butlast (sample_reply_row 100)),
                   map real_of_int (butlast (sample_reply_row 200)),
                   kline_row (sample_kline 300 9)],
        maxlen = 3, ws_ready_event = True\<rparr>,
      [FetchCandles 300 3, Sleep 1], Done)
   \<and> kept_rows \<lparr>candles = [kline_row (sample_kline 300 9)], maxlen = 3, ws_ready_event = True\<rparr>
        [map real_of_int (butlast (sample_reply_row 100)),
         map real_of_int (butlast (sample_reply_row 200)),
         map real_of_int (butlast (sample_reply_row 300))]
      = [map real_of_int (butlast (sample_reply_row 100)),
         map real_of_int (butlast (sample_reply_row 200))]
   \<and> kline_row (sample_kline 300 9) \<noteq> map real_of_int (butlast (sample_reply_row 300))
   \<and> map hd [map real_of_int (butlast (sample_reply_row 100)),
              map real_of_int (butlast (sample_reply_row 200)),
              kline_row (sample_kline 300 9)] = [100, 200, 300]"
  by (simp add: tick_defs sample_defs Let_def)

section \<open>Restarting the network\<close>

text \<open>
  C3. \<open>start_network\<close> stores the backfill task in \<open>_fill_candles_task\<close>, and
  \<open>stop_network\<close> cancels \<open>_fetch_candles_task\<close>, which is never assigned. After two
  starts two backfill loops run, and one listen loop; after a start and a stop the
  backfill loop still runs.
\<close>

theorem restart_leaves_backfill_running:
  "loops_running FillCandlesLoop (start_network (start_network network_init)) = 2
   \<and> loops_running ListenForSubscriptions (start_network (start_network network_init)) = 1
   \<and> loops_running FillCandlesLoop (stop_network (start_network network_init)) = 1"
  by (simp add: network_defs Let_def)

section \<open>The shape of the fetched rows\<close>

text \<open>An empty reply is not a two-dimensional array: \<open>fetch_candles\<close> raises.\<close>

theorem fetch_candles_empty_reply:
  "fetch_candles real_of_int (Inr []) = Inl IndexError"
  by (simp add: fetch_candles_def)

text \<open>
  C7, for a reply that has a row. A reply of \<open>r \<ge> 1\<close> rows of \<open>w\<close> columns gives
  \<open>r\<close> rows of \<open>w - 1\<close> columns, in the same order: row \<open>i\<close>, column \<open>j\<close> of the result
  is the converted cell of row \<open>i\<close>, column \<open>j\<close> of the reply, and the last column of
  the reply is not in the result.
\<close>

theorem fetch_candles_shape:
  assumes "rows \<noteq> []" and "list_all (\<lambda>r. length r = w) rows"
  shows "\<exists>out. fetch_candles to_float (Inr rows) = Inr out \<and> length out = length rows \<and>
     (\<forall>i < length rows. length (out ! i) = w - 1 \<and>
        (\<forall>j < w - 1. out ! i ! j = to_float (rows ! i ! j)))"
proof -
  from assms have "length (hd rows) = w"
    by (cases rows) auto
  with assms have eq:
    "fetch_candles to_float (Inr rows) = Inr (map (\<lambda>r. map to_float (butlast r)) rows)"
    by (simp add: fetch_candles_def)
  have "\<And>i. i < length rows \<Longrightarrow> length (rows ! i) = w"
    using assms(2) by (simp add: list_all_length)
  then show ?thesis
    unfolding eq by (auto simp: nth_butlast)
qed

theorem fetch_candles_shape_witness:
  "map sample_reply_row [100, 200, 300, 400, 500] \<noteq> []
   \<and> list_all (\<lambda>r. length r = 12) (map sample_reply_row [100, 200, 300, 400, 500])
   \<and> (\<exists>out. fetch_candles real_of_int (Inr (map sample_reply_row [100, 200, 300, 400, 500]))
          = Inr out \<and> length out = length (map sample_reply_row [100, 200, 300, 400, 500]) \<and>
        (\<forall>i < length (map sample_reply_row [100, 200, 300, 400, 500]).
           length (out ! i) = 12 - 1 \<and>
           (\<forall>j < 12 - 1. out ! i ! j
              = real_of_int (map sample_reply_row [100, 200, 300, 400, 500] ! i ! j))))"
proof -
  have h1: "map sample_reply_row [100, 200, 300, 400, 500] \<noteq> []"
    by simp
  have h2: "list_all (\<lambda>r. length r = 12) (map sample_reply_row [100, 200, 300, 400, 500])"
    by (simp add: sample_reply_row_def)
  show ?thesis
    by (intro conjI h1 h2 fetch_candles_shape [OF h1 h2])
qed

section \<open>Sizes\<close>

lemma deque_append_length:
  "length (deque_append n xs x) = (if length xs < n then Suc (length xs) else length xs)"
  by (simp add: deque_append_def Let_def)

lemma deque_appendleft_length:
  "length (deque_appendleft n xs x) = (if length xs < n then Suc (length xs) else length xs)"
  by (simp add: deque_appendleft_def Let_def)

lemma deque_extendleft_length:
  "length (deque_extendleft n xs ys) =
     (if n \<le> length xs then length xs else min n (length xs + length ys))"
  unfolding deque_extendleft_def
  by (induction ys arbitrary: xs) (auto simp: deque_appendleft_length)

lemma deque_extendleft_fits:
  "length xs + length ys \<le> n \<Longrightarrow> deque_extendleft n xs ys = rev ys @ xs"
  unfolding deque_extendleft_def
  by (induction ys arbitrary: xs) (auto simp: deque_appendleft_def Let_def)

lemma deque_append_last:
  "xs \<noteq> [] \<Longrightarrow> deque_append n xs x \<noteq> [] \<and> last (deque_append n xs x) = x"
  by (cases xs) (auto simp: deque_append_def Let_def last_tl)

lemma process_cases:
  "process_websocket_message s d = Inl IndexError \<or>
   process_websocket_message s d = Inr s \<or>
   process_websocket_message s d = Inr (s\<lparr>ws_ready_event := True\<rparr>) \<or>
   (\<exists>k. d = KlineEvent k \<and>
      process_websocket_message s d =
        Inr (s\<lparr>candles := deque_append (maxlen s) (candles s) (kline_row k),
               ws_ready_event := True\<rparr>))"
  by (auto simp: process_websocket_message_def column0_def split: ws_data.splits sum.splits list.splits)

lemma deliver1_cases:
  "candles (deliver1 s d) = candles s \<or>
   (\<exists>k. d = KlineEvent k \<and>
      candles (deliver1 s d) = deque_append (maxlen s) (candles s) (kline_row k))"
  using process_cases [of s d] by (auto simp: deliver1_def)

lemma deliver1_maxlen: "maxlen (deliver1 s d) = maxlen s"
  using process_cases [of s d] by (auto simp: deliver1_def)

lemma deliver1_length: "length (candles s) \<le> length (candles (deliver1 s d))"
  using deliver1_cases [of s d] by (auto simp: deque_append_length)

lemma deliver1_full:
  "length (candles s) = maxlen s \<Longrightarrow> length (candles (deliver1 s d)) = maxlen s"
  using deliver1_cases [of s d] by (auto simp: deque_append_length)

lemma deliver_maxlen: "maxlen (deliver s ds) = maxlen s"
  by (induction ds arbitrary: s) (simp_all add: deliver1_maxlen)

lemma deliver_length: "length (candles s) \<le> length (candles (deliver s ds))"
proof (induction ds arbitrary: s)
  case Nil
  show ?case by simp
next
  case (Cons d ds)
  have "length (candles s) \<le> length (candles (deliver1 s d))"
    by (rule deliver1_length)
  also have "\<dots> \<le> length (candles (deliver (deliver1 s d) ds))"
    by (rule Cons.IH)
  finally show ?case by simp
qed

lemma extend_with_maxlen: "maxlen (extend_with s rows) = maxlen s"
  by (simp add: extend_with_def)

lemma extend_with_length: "length (candles s) \<le> length (candles (extend_with s rows))"
  by (simp add: extend_with_def deque_extendleft_length)

lemma body_cases:
  "fst (fill_candles_body to_float s during response) = s \<or>
   fst (fill_candles_body to_float s during response) = deliver s during \<or>
   (\<exists>rows. fst (fill_candles_body to_float s during response) = extend_with (deliver s during) rows)"
  by (auto simp: fill_candles_body_def Let_def split: sum.splits)

lemma iteration_feed:
  "fst (fill_candles_iteration to_float s during response c) =
   fst (fill_candles_body to_float s during response)"
  by (auto simp: fill_candles_iteration_def split: prod.splits outcome.splits)

lemma body_full:
  "is_ready s \<Longrightarrow> fst (fill_candles_body to_float s during response) = s"
  by (simp add: fill_candles_body_def is_ready_def missing_records_def)

lemma feed_step_maxlen: "maxlen (feed_step to_float s ev) = maxlen s"
proof (cases ev)
  case (LiveMessage d)
  then show ?thesis by (simp add: feed_step_def deliver1_maxlen)
next
  case (BackfillTick during response)
  then show ?thesis
    using body_cases [of to_float s during response]
    by (auto simp: feed_step_def iteration_feed deliver_maxlen extend_with_maxlen)
qed

lemma feed_step_length: "length (candles s) \<le> length (candles (feed_step to_float s ev))"
proof (cases ev)
  case (LiveMessage d)
  then show ?thesis by (simp add: feed_step_def deliver1_length)
next
  case (BackfillTick during response)
  have "length (candles s) \<le> length (candles (deliver s during))"
    by (rule deliver_length)
  moreover have "\<And>rows. length (candles (deliver s during))
      \<le> length (candles (extend_with (deliver s during) rows))"
    by (rule extend_with_length)
  ultimately show ?thesis
    using BackfillTick body_cases [of to_float s during response]
    by (auto simp: feed_step_def iteration_feed intro: order_trans)
qed

lemma feed_step_ready: "is_ready s \<Longrightarrow> is_ready (feed_step to_float s ev)"
proof (cases ev)
  case (LiveMessage d)
  assume "is_ready s"
  with LiveMessage show ?thesis
    by (simp add: feed_step_def is_ready_def deliver1_full deliver1_maxlen)
next
  case (BackfillTick during response)
  assume "is_ready s"
  with BackfillTick show ?thesis
    by (simp add: feed_step_def iteration_feed body_full)
qed

lemma run_length: "length (candles s) \<le> length (candles (run to_float s evs))"
proof (induction evs arbitrary: s)
  case Nil
  show ?case by simp
next
  case (Cons ev evs)
  have "length (candles s) \<le> length (candles (feed_step to_float s ev))"
    by (rule feed_step_length)
  also have "\<dots> \<le> length (candles (run to_float (feed_step to_float s ev) evs))"
    by (rule Cons.IH)
  finally show ?case by simp
qed

lemma run_ready: "is_ready s \<Longrightarrow> is_ready (run to_float s evs)"
  by (induction evs arbitrary: s) (simp_all add: feed_step_ready)

section \<open>Readiness\<close>

text \<open>
  C5. No stream message and no backfill iteration makes the buffer shorter, so a feed
  that is ready stays ready, whatever the messages and replies are.
\<close>

theorem readiness_monotone:
  "length (candles s) \<le> length (candles (run to_float s evs))
   \<and> (is_ready s \<longrightarrow> is_ready (run to_float s evs))"
  by (simp add: run_length run_ready)

theorem readiness_monotone_witness:
  "is_ready full_feed
   \<and> is_ready (run real_of_int full_feed
        [LiveMessage (KlineEvent (sample_kline 300 2)),
         BackfillTick [] (Inr [sample_reply_row 100, sample_reply_row 200]),
         LiveMessage NoData])
   \<and> map hd (candles (run real_of_int full_feed
        [LiveMessage (KlineEvent (sample_kline 300 2)),
         BackfillTick [] (Inr [sample_reply_row 100, sample_reply_row 200]),
         LiveMessage NoData])) = [200, 300]"
proof -
  have ready: "is_ready full_feed"
    by (simp add: is_ready_def full_feed_def)
  have final: "map hd (candles (run real_of_int full_feed
        [LiveMessage (KlineEvent (sample_kline 300 2)),
         BackfillTick [] (Inr [sample_reply_row 100, sample_reply_row 200]),
         LiveMessage NoData])) = [200, 300]"
    by (simp add: full_feed_def feed_step_def deliver1_def process_websocket_message_def
        py_int_of_int py_int_def tick_defs sample_defs Let_def)
  from ready readiness_monotone [of full_feed real_of_int] final show ?thesis
    by blast
qed

section \<open>Messages for the open time of the tail\<close>

lemma column0_kline_row: "column0 (kline_row k) = Inr (of_int (float64_of_int (k_t k)))"
  by (simp add: column0_def kline_row_def)

lemma deque_append_nil: "deque_append n [] x = (if n = 0 then [] else [x])"
  by (simp add: deque_append_def)

text \<open>
  A kline whose open time has more than 53 bits is stored rounded. The same message
  again is then compared with the rounded open time, differs from it, and is appended
  a second time.
\<close>

theorem rounded_open_time_repeated:
  "candles (deliver1 (init 3) (KlineEvent (sample_kline 9007199254740993 2)))
     = [kline_row (sample_kline 9007199254740993 2)]
   \<and> candles (deliver1 (deliver1 (init 3) (KlineEvent (sample_kline 9007199254740993 2)))
        (KlineEvent (sample_kline 9007199254740993 2)))
     = [kline_row (sample_kline 9007199254740993 2), kline_row (sample_kline 9007199254740993 2)]
   \<and> hd (kline_row (sample_kline 9007199254740993 2)) = 9007199254740992"
proof -
  have row: "column0 (kline_row (sample_kline 9007199254740993 2)) = Inr 9007199254740992"
    and t: "k_t (sample_kline 9007199254740993 2) = 9007199254740993"
    and h: "hd (kline_row (sample_kline 9007199254740993 2)) = 9007199254740992"
    by (simp_all add: column0_def kline_row_def sample_kline_def float64_of_int_rounds)
  have first: "deliver1 (init 3) (KlineEvent (sample_kline 9007199254740993 2))
      = \<lparr>candles = [kline_row (sample_kline 9007199254740993 2)], maxlen = 3,
         ws_ready_event = True\<rparr>"
    by (simp add: deliver1_def process_websocket_message_def init_def deque_append_def)
  have "candles (deliver1 \<lparr>candles = [kline_row (sample_kline 9007199254740993 2)], maxlen = 3,
         ws_ready_event = True\<rparr> (KlineEvent (sample_kline 9007199254740993 2)))
      = [kline_row (sample_kline 9007199254740993 2), kline_row (sample_kline 9007199254740993 2)]"
    by (simp add: deliver1_def process_websocket_message_def row t py_int_def deque_append_def)
  with first h show ?thesis
    by simp
qed

text \<open>
  C4, for open times that a double holds. When the buffer is not empty and a kline
  message has the open time of the tail record, the handler changes nothing in the
  buffer (it only sets the readiness event): size, tail and every field of every record
  stay, whatever the other fields of the message are. And a second message with the
  open time of the one just handled leaves the buffer as the first left it, from any
  buffer, when that open time is at most \<open>2 ^ 53\<close> in absolute value.
\<close>

theorem same_open_time_no_mutation:
  "(candles s \<noteq> [] \<and> column0 (last (candles s)) = Inr t0 \<and> k_t k = py_int t0
      \<longrightarrow> process_websocket_message s (KlineEvent k) = Inr (s\<lparr>ws_ready_event := True\<rparr>)
          \<and> candles (deliver1 s (KlineEvent k)) = candles s)
   \<and> (k_t k2 = k_t k1 \<and> \<bar>k_t k1\<bar> \<le> 2 ^ 53
      \<longrightarrow> candles (deliver1 (deliver1 s (KlineEvent k1)) (KlineEvent k2))
          = candles (deliver1 s (KlineEvent k1)))"
proof (intro conjI impI)
  assume a: "candles s \<noteq> [] \<and> column0 (last (candles s)) = Inr t0 \<and> k_t k = py_int t0"
  then show p: "process_websocket_message s (KlineEvent k) = Inr (s\<lparr>ws_ready_event := True\<rparr>)"
    by (simp add: process_websocket_message_def)
  show "candles (deliver1 s (KlineEvent k)) = candles s"
    by (simp add: deliver1_def p)
next
  assume b: "k_t k2 = k_t k1 \<and> \<bar>k_t k1\<bar> \<le> 2 ^ 53"
  then have same: "k_t k2 = k_t k1" and stored: "float64_of_int (k_t k1) = k_t k1"
    by (simp_all add: float64_of_int_exact)
  let ?s1 = "deliver1 s (KlineEvent k1)"
  have after_row: "candles (deliver1 ?s1 (KlineEvent k2)) = candles ?s1"
    if "candles ?s1 \<noteq> []" and "last (candles ?s1) = kline_row k1"
    using that same stored
    by (simp add: deliver1_def [of ?s1] process_websocket_message_def [of ?s1]
        column0_kline_row py_int_of_int)
  show "candles (deliver1 ?s1 (KlineEvent k2)) = candles ?s1"
  proof (cases "candles s = []")
    case True
    show ?thesis
    proof (cases "maxlen s = 0")
      case True
      with \<open>candles s = []\<close> show ?thesis
        by (simp add: deliver1_def process_websocket_message_def deque_append_nil)
    next
      case False
      with True have "candles ?s1 = [kline_row k1]"
        by (simp add: deliver1_def process_websocket_message_def deque_append_nil)
      then show ?thesis
        by (intro after_row) simp_all
    qed
  next
    case False
    show ?thesis
    proof (cases "column0 (last (candles s))")
      case (Inl e)
      with False show ?thesis
        by (simp add: deliver1_def process_websocket_message_def)
    next
      case (Inr t0)
      show ?thesis
      proof (cases "k_t k1 = py_int t0")
        case True
        with False Inr same show ?thesis
          by (simp add: deliver1_def process_websocket_message_def)
      next
        case neq: False
        with False Inr have "candles ?s1 = deque_append (maxlen s) (candles s) (kline_row k1)"
          by (simp add: deliver1_def process_websocket_message_def)
        with deque_append_last [OF False, of "maxlen s" "kline_row k1"]
        have "candles ?s1 \<noteq> []" "last (candles ?s1) = kline_row k1"
          by simp_all
        then show ?thesis
          by (rule after_row)
      qed
    qed
  qed
qed

theorem same_open_time_no_mutation_witness:
  "candles (live_feed 3) \<noteq> []
   \<and> column0 (last (candles (live_feed 3))) = Inr 300
   \<and> k_t (sample_kline 300 9) = py_int 300
   \<and> process_websocket_message (live_feed 3) (KlineEvent (sample_kline 300 9))
       = Inr ((live_feed 3)\<lparr>ws_ready_event := True\<rparr>)
   \<and> candles (deliver1 (live_feed 3) (KlineEvent (sample_kline 300 9)))
       = [kline_row (sample_kline 300 2)]
   \<and> k_t (sample_kline 400 7) = k_t (sample_kline 400 2)
   \<and> \<bar>k_t (sample_kline 400 2)\<bar> \<le> 2 ^ 53
   \<and> candles (deliver1 (deliver1 (live_feed 3) (KlineEvent (sample_kline 400 2)))
         (KlineEvent (sample_kline 400 7)))
       = candles (deliver1 (live_feed 3) (KlineEvent (sample_kline 400 2)))"
proof -
  have h1: "candles (live_feed 3) \<noteq> [] \<and> column0 (last (candles (live_feed 3))) = Inr 300
      \<and> k_t (sample_kline 300 9) = py_int 300"
    by (simp add: live_feed_def column0_def sample_defs py_int_def)
  have h2: "k_t (sample_kline 400 7) = k_t (sample_kline 400 2)
      \<and> \<bar>k_t (sample_kline 400 2)\<bar> \<le> 2 ^ 53"
    by (simp add: sample_kline_def)
  have c: "candles (live_feed 3) = [kline_row (sample_kline 300 2)]"
    by (simp add: live_feed_def)
  from same_open_time_no_mutation
    [of "live_feed 3" 300 "sample_kline 300 9" "sample_kline 400 7" "sample_kline 400 2"]
    h1 h2 c
  show ?thesis
    by simp
qed

section \<open>The backfill mutation\<close>

lemma slice_length:
  "0 \<le> m \<Longrightarrow> xs \<noteq> [] \<Longrightarrow>
   int (length (py_slice xs (- (m + 1)) (- 1))) = min m (int (length xs) - 1)"
  by (cases xs) (auto simp: py_slice_def slice_bound_def Let_def min_def max_def)

lemma fetch_candles_nonempty: "fetch_candles to_float response = Inr rows \<Longrightarrow> rows \<noteq> []"
  by (auto simp: fetch_candles_def split: sum.splits if_splits)

lemma deliver1_bounded:
  "length (candles s) \<le> maxlen s \<Longrightarrow> length (candles (deliver1 s d)) \<le> maxlen (deliver1 s d)"
  using deliver1_cases [of s d] by (auto simp: deliver1_maxlen deque_append_length)

lemma deliver_bounded:
  "length (candles s) \<le> maxlen s \<Longrightarrow> length (candles (deliver s ds)) \<le> maxlen (deliver s ds)"
  by (induction ds arbitrary: s) (simp_all add: deliver1_bounded)

lemma kept_rows_length:
  assumes "length (candles s) \<le> maxlen s" and "rows \<noteq> []"
  shows "int (length (kept_rows s rows)) = min (missing_records s) (int (length rows) - 1)"
proof -
  from assms(1) have "0 \<le> missing_records s"
    by (simp add: missing_records_def)
  then show ?thesis
    unfolding kept_rows_def using assms(2) by (rule slice_length)
qed

lemma extend_with_fits:
  assumes "length (candles s) \<le> maxlen s" and "rows \<noteq> []"
  shows "candles (extend_with s rows) = kept_rows s rows @ candles s"
proof -
  have "int (length (kept_rows s rows)) \<le> missing_records s"
    using kept_rows_length [OF assms] by simp
  then have "length (candles s) + length (rev (kept_rows s rows)) \<le> maxlen s"
    by (simp add: missing_records_def)
  then show ?thesis
    by (simp add: extend_with_def deque_extendleft_fits)
qed

text \<open>
  C10. In an iteration that reaches the mutation (the event is set, records are missing,
  the head has an open time, the fetch returns rows), let the buffer be as the stream
  messages handled during the fetch left it. The rows pushed are the slice of the
  fetched rows; their number is the smaller of the missing count read again and the
  number of fetched rows less one, so it is at most the free capacity; and the new
  buffer is these rows followed by the whole buffer as it was: nothing is evicted.
\<close>

theorem backfill_prepend_frame:
  assumes "length (candles s) \<le> maxlen s"
    and "ws_ready_event s" and "missing_records s > 0" and "end_timestamp s = Inr ts"
    and "fetch_candles to_float response = Inr rows"
  shows "candles (fst (fill_candles_iteration to_float s during response c))
           = kept_rows (deliver s during) rows @ candles (deliver s during)
     \<and> int (length (kept_rows (deliver s during) rows))
           = min (missing_records (deliver s during)) (int (length rows) - 1)
     \<and> int (length (kept_rows (deliver s during) rows)) \<le> missing_records (deliver s during)"
proof -
  have bounded: "length (candles (deliver s during)) \<le> maxlen (deliver s during)"
    using assms(1) by (rule deliver_bounded)
  have rows: "rows \<noteq> []"
    using assms(5) by (rule fetch_candles_nonempty)
  have "fst (fill_candles_iteration to_float s during response c)
      = extend_with (deliver s during) rows"
    using assms(2-5) by (simp add: iteration_feed fill_candles_body_def Let_def)
  then have "candles (fst (fill_candles_iteration to_float s during response c))
      = kept_rows (deliver s during) rows @ candles (deliver s during)"
    by (simp add: extend_with_fits [OF bounded rows])
  moreover note len = kept_rows_length [OF bounded rows]
  moreover from len have
    "int (length (kept_rows (deliver s during) rows)) \<le> missing_records (deliver s during)"
    by simp
  ultimately show ?thesis
    by blast
qed

theorem backfill_prepend_frame_witness:
  "length (candles (live_feed 4)) \<le> maxlen (live_feed 4)
   \<and> ws_ready_event (live_feed 4)
   \<and> missing_records (live_feed 4) > 0
   \<and> end_timestamp (live_feed 4) = Inr 300
   \<and> fetch_candles real_of_int
        (Inr [sample_reply_row 100, sample_reply_row 200, sample_reply_row 300])
       = Inr (map (\<lambda>r. map real_of_int (butlast r))
               [sample_reply_row 100, sample_reply_row 200, sample_reply_row 300])
   \<and> map hd (candles (fst (fill_candles_iteration real_of_int (live_feed 4)
        [KlineEvent (sample_kline 400 2)]
        (Inr [sample_reply_row 100, sample_reply_row 200, sample_reply_row 300]) False)))
       = [100, 200, 300, 400]
   \<and> missing_records (deliver (live_feed 4) [KlineEvent (sample_kline 400 2)]) = 2"
proof -
  have h1: "length (candles (live_feed 4)) \<le> maxlen (live_feed 4)"
    and h2: "ws_ready_event (live_feed 4)"
    and h3: "missing_records (live_feed 4) > 0"
    and h4: "end_timestamp (live_feed 4) = Inr 300"
    by (simp_all add: live_feed_def missing_records_def end_timestamp_def column0_def sample_defs)
  have h5: "fetch_candles real_of_int
        (Inr [sample_reply_row 100, sample_reply_row 200, sample_reply_row 300])
       = Inr (map (\<lambda>r. map real_of_int (butlast r))
               [sample_reply_row 100, sample_reply_row 200, sample_reply_row 300])"
    by (simp add: fetch_candles_def sample_reply_row_def)
  have d: "deliver1 (live_feed 4) (KlineEvent (sample_kline 400 2))
      = \<lparr>candles = [kline_row (sample_kline 300 2), kline_row (sample_kline 400 2)],
         maxlen = 4, ws_ready_event = True\<rparr>"
    by (simp add: live_feed_def deliver1_def process_websocket_message_def column0_def
        deque_append_def py_int_def sample_defs)
  from backfill_prepend_frame [OF h1 h2 h3 h4 h5, of "[KlineEvent (sample_kline 400 2)]" False]
  have "candles (fst (fill_candles_iteration real_of_int (live_feed 4)
        [KlineEvent (sample_kline 400 2)]
        (Inr [sample_reply_row 100, sample_reply_row 200, sample_reply_row 300]) False))
      = [map real_of_int (butlast (sample_reply_row 100)), map real_of_int (butlast (sample_reply_row 200)),
         kline_row (sample_kline 300 2), kline_row (sample_kline 400 2)]"
    by (simp add: d kept_rows_def missing_records_def py_slice_def slice_bound_def)
  then have "map hd (candles (fst (fill_candles_iteration real_of_int (live_feed 4)
        [KlineEvent (sample_kline 400 2)]
        (Inr [sample_reply_row 100, sample_reply_row 200, sample_reply_row 300]) False)))
       = [100, 200, 300, 400]"
    by (simp add: sample_defs)
  moreover have "missing_records (deliver (live_feed 4) [KlineEvent (sample_kline 400 2)]) = 2"
    by (simp add: d missing_records_def)
  ultimately show ?thesis
    using h1 h2 h3 h4 h5 by blast
qed

section \<open>The buffer invariant\<close>

lemma ordered_Nil: "ordered []"
  by (simp add: ordered_def)

lemma ordered_tl: "ordered xs \<Longrightarrow> ordered (tl xs)"
  by (cases xs) (auto simp: ordered_def)

lemma ordered_snoc:
  assumes "ordered xs" and "r \<noteq> []" and "xs \<noteq> [] \<Longrightarrow> hd (last xs) < hd r"
  shows "ordered (xs @ [r])"
proof (cases "xs = []")
  case True
  with assms(2) show ?thesis by (simp add: ordered_def)
next
  case False
  from assms(1) have sorted: "sorted_wrt (<) (map hd xs)"
    by (simp add: ordered_def)
  have "hd x < hd r" if "x \<in> set xs" for x
  proof (cases "x = last xs")
    case True
    with assms(3) False show ?thesis by simp
  next
    case neq: False
    from that obtain i where i: "i < length xs" "xs ! i = x"
      by (auto simp: in_set_conv_nth)
    with neq False have "i < length xs - 1"
      by (cases "i = length xs - 1") (auto simp: last_conv_nth)
    with sorted i False have "hd x < hd (last xs)"
      by (auto simp: sorted_wrt_iff_nth_less last_conv_nth)
    also have "\<dots> < hd r"
      using assms(3) False by simp
    finally show ?thesis .
  qed
  with assms(1,2) show ?thesis
    by (auto simp: ordered_def sorted_wrt_append)
qed

lemma ordered_head_least:
  assumes "ordered (r0 # rest)" and "y \<in> set (r0 # rest)"
  shows "hd r0 \<le> hd y"
  using assms by (auto simp: ordered_def intro: less_imp_le)

lemma ordered_append:
  assumes "list_all (\<lambda>r. r \<noteq> []) kept" and "sorted_wrt (<) (map hd kept)" and "ordered xs"
    and "\<And>x y. x \<in> set kept \<Longrightarrow> y \<in> set xs \<Longrightarrow> hd x < hd y"
  shows "ordered (kept @ xs)"
  using assms by (auto simp: ordered_def sorted_wrt_append)

lemma deque_append_ordered:
  assumes "ordered xs" and "r \<noteq> []" and "xs \<noteq> [] \<Longrightarrow> hd (last xs) < hd r"
  shows "ordered (deque_append n xs r)"
  using ordered_snoc [OF assms] by (simp add: deque_append_def Let_def ordered_tl)

lemma deliver1_invariant:
  assumes inv: "buffer_invariant s" and ok: "live_ok s d" and exact: "exact_open_time d"
  shows "buffer_invariant (deliver1 s d)"
proof -
  from inv have bounded: "length (candles s) \<le> maxlen s" and ord: "ordered (candles s)"
    by (simp_all add: buffer_invariant_def)
  have len: "length (candles (deliver1 s d)) \<le> maxlen (deliver1 s d)"
    using bounded by (rule deliver1_bounded)
  have "ordered (candles (deliver1 s d))"
  proof (cases d)
    case (KlineEvent k)
    have row: "kline_row k \<noteq> []"
      by (simp add: kline_row_def)
    from exact KlineEvent have "float64_of_int (k_t k) = k_t k"
      by (simp add: exact_open_time_def float64_of_int_exact)
    then have hdrow: "hd (kline_row k) = of_int (k_t k)"
      by (simp add: kline_row_def)
    show ?thesis
    proof (cases "candles s = []")
      case True
      have "ordered (deque_append (maxlen s) [] (kline_row k))"
        using ordered_Nil row by (rule deque_append_ordered) simp
      with KlineEvent True show ?thesis
        by (simp add: deliver1_def process_websocket_message_def)
    next
      case False
      with ord have "last (candles s) \<noteq> []"
        by (auto simp: ordered_def list_all_iff)
      then obtain t0 cols where last: "last (candles s) = t0 # cols"
        by (cases "last (candles s)") auto
      then have c0: "column0 (last (candles s)) = Inr t0"
        by (simp add: column0_def)
      from ok KlineEvent False c0 have le: "t0 \<le> of_int (k_t k)"
        by (auto simp: live_ok_def split: list.splits)
      show ?thesis
      proof (cases "k_t k = py_int t0")
        case True
        with KlineEvent False c0 ord show ?thesis
          by (simp add: deliver1_def process_websocket_message_def)
      next
        case neq: False
        then have "t0 \<noteq> of_int (k_t k)"
          by (auto simp: py_int_of_int)
        with le have "hd (last (candles s)) < hd (kline_row k)"
          by (simp add: last hdrow)
        with ord row have "ordered (deque_append (maxlen s) (candles s) (kline_row k))"
          by (intro deque_append_ordered)
        with KlineEvent False c0 neq show ?thesis
          by (simp add: deliver1_def process_websocket_message_def)
      qed
    qed
  qed (simp_all add: deliver1_def process_websocket_message_def ord)
  with len show ?thesis
    by (simp add: buffer_invariant_def)
qed

lemma deliver_invariant:
  "buffer_invariant s \<Longrightarrow> live_run_ok s ds \<Longrightarrow> list_all exact_open_time ds \<Longrightarrow>
   buffer_invariant (deliver s ds)"
  by (induction ds arbitrary: s) (simp_all add: deliver1_invariant)

lemma deliver1_prefix:
  assumes "length (candles (deliver1 s d)) < maxlen s"
  shows "\<exists>zs. candles (deliver1 s d) = candles s @ zs"
  using deliver1_cases [of s d] assms
  by (auto simp: deque_append_def Let_def split: if_splits)

lemma deliver_prefix:
  "length (candles (deliver s ds)) < maxlen s \<Longrightarrow> \<exists>zs. candles (deliver s ds) = candles s @ zs"
proof (induction ds arbitrary: s)
  case Nil
  then show ?case by simp
next
  case (Cons d ds)
  let ?s1 = "deliver1 s d"
  from Cons.prems have less: "length (candles (deliver ?s1 ds)) < maxlen ?s1"
    by (simp add: deliver1_maxlen)
  then obtain zs where zs: "candles (deliver ?s1 ds) = candles ?s1 @ zs"
    using Cons.IH by blast
  have "length (candles ?s1) \<le> length (candles (deliver ?s1 ds))"
    by (rule deliver_length)
  with less have "length (candles ?s1) < maxlen s"
    by (simp add: deliver1_maxlen)
  then obtain ys where "candles ?s1 = candles s @ ys"
    using deliver1_prefix by blast
  with zs show ?case by simp
qed

lemma extend_with_invariant:
  assumes inv0: "buffer_invariant s" and run: "live_run_ok s during"
    and exact: "list_all exact_open_time during"
    and ts: "end_timestamp s = Inr ts" and rows: "rows \<noteq> []"
    and below: "below_boundary s (kept_rows (deliver s during) rows)"
    and incr: "sorted_wrt (<) (map hd (kept_rows (deliver s during) rows))"
  shows "buffer_invariant (extend_with (deliver s during) rows)"
proof -
  let ?s1 = "deliver s during"
  let ?kept = "kept_rows ?s1 rows"
  from inv0 run exact have inv1: "buffer_invariant ?s1"
    by (rule deliver_invariant)
  then have bounded: "length (candles ?s1) \<le> maxlen ?s1" and ord: "ordered (candles ?s1)"
    by (simp_all add: buffer_invariant_def)
  have eq: "candles (extend_with ?s1 rows) = ?kept @ candles ?s1"
    using bounded rows by (rule extend_with_fits)
  have len: "int (length ?kept) \<le> missing_records ?s1"
    using kept_rows_length [OF bounded rows] by simp
  from ts obtain cols rest where head: "candles s = (ts # cols) # rest"
    by (auto simp: end_timestamp_def column0_def split: list.splits)
  from below ts have kept: "list_all (\<lambda>r. case column0 r of Inl e \<Rightarrow> False | Inr t \<Rightarrow> t < ts) ?kept"
    by (simp add: below_boundary_def)
  have nonempty: "list_all (\<lambda>r. r \<noteq> []) ?kept"
    using kept by (auto simp: list_all_iff column0_def)
  have less: "hd x < ts" if "x \<in> set ?kept" for x
  proof (cases x)
    case Nil
    with kept that show ?thesis
      by (auto simp: list_all_iff column0_def)
  next
    case (Cons t cols')
    with kept that show ?thesis
      by (auto simp: list_all_iff column0_def)
  qed
  have cross: "hd x < hd y" if x: "x \<in> set ?kept" and y: "y \<in> set (candles ?s1)" for x y
  proof -
    from x have "?kept \<noteq> []" by auto
    with len have "length (candles ?s1) < maxlen s"
      by (cases ?kept) (auto simp: missing_records_def deliver_maxlen)
    then obtain zs where zs: "candles ?s1 = candles s @ zs"
      using deliver_prefix by blast
    with head have shape: "candles ?s1 = (ts # cols) # (rest @ zs)"
      by simp
    with ord y have "hd (ts # cols) \<le> hd y"
      using ordered_head_least [of "ts # cols" "rest @ zs" y] by simp
    with less [OF x] show ?thesis by simp
  qed
  have "ordered (?kept @ candles ?s1)"
    using nonempty incr ord cross by (rule ordered_append)
  moreover have "length (?kept @ candles ?s1) \<le> maxlen ?s1"
    using len by (simp add: missing_records_def)
  ultimately show ?thesis
    by (simp add: buffer_invariant_def eq extend_with_maxlen)
qed

lemma feed_step_invariant:
  assumes inv: "buffer_invariant s" and ok: "interface_assumptions to_float s ev"
  shows "buffer_invariant (feed_step to_float s ev)"
proof (cases ev)
  case (LiveMessage d)
  with ok have "live_ok s d" and "exact_open_time d"
    by (simp_all add: interface_assumptions_def stated_assumptions_def)
  with inv LiveMessage show ?thesis
    by (simp add: feed_step_def deliver1_invariant)
next
  case (BackfillTick during response)
  with ok have run: "live_run_ok s during"
    and below: "below_boundary s (pushed to_float s during response)"
    and incr: "sorted_wrt (<) (map hd (pushed to_float s during response))"
    and exact: "list_all exact_open_time during"
    by (simp_all add: interface_assumptions_def stated_assumptions_def)
  have step: "feed_step to_float s ev = fst (fill_candles_body to_float s during response)"
    using BackfillTick by (simp add: feed_step_def iteration_feed)
  show ?thesis
  proof (cases "ws_ready_event s \<and> missing_records s > 0")
    case False
    then have "fst (fill_candles_body to_float s during response) = s"
      by (auto simp: fill_candles_body_def)
    with inv step show ?thesis by simp
  next
    case reached: True
    show ?thesis
    proof (cases "end_timestamp s")
      case (Inl e)
      with reached have "fst (fill_candles_body to_float s during response) = s"
        by (simp add: fill_candles_body_def)
      with inv step show ?thesis by simp
    next
      case (Inr ts)
      show ?thesis
      proof (cases "fetch_candles to_float response")
        case (Inl e)
        with reached Inr have "fst (fill_candles_body to_float s during response) = deliver s during"
          by (simp add: fill_candles_body_def Let_def)
        with inv run exact step show ?thesis
          by (simp add: deliver_invariant)
      next
        case rows: (Inr rows)
        with reached Inr have body: "fst (fill_candles_body to_float s during response)
            = extend_with (deliver s during) rows"
          by (simp add: fill_candles_body_def Let_def)
        from rows reached Inr have p: "pushed to_float s during response = kept_rows (deliver s during) rows"
          by (simp add: pushed_def)
        have "rows \<noteq> []"
          using rows by (rule fetch_candles_nonempty)
        with inv run exact Inr below incr
        have "buffer_invariant (extend_with (deliver s during) rows)"
          unfolding p by (intro extend_with_invariant)
        with body step show ?thesis by simp
      qed
    qed
  qed
qed

lemma run_invariant:
  "buffer_invariant s \<Longrightarrow> assumed (interface_assumptions to_float) to_float s evs
   \<Longrightarrow> buffer_invariant (run to_float s evs)"
  by (induction evs arbitrary: s) (simp_all add: feed_step_invariant)

lemma run_maxlen: "maxlen (run to_float s evs) = maxlen s"
  by (induction evs arbitrary: s) (simp_all add: feed_step_maxlen)

lemma init_invariant: "buffer_invariant (init n)"
  by (simp add: buffer_invariant_def init_def ordered_def)

subsection \<open>Two sample runs\<close>

lemmas live_defs = deliver1_def process_websocket_message_def

lemma first_message:
  "0 < n \<Longrightarrow> deliver1 (init n) (KlineEvent (sample_kline 300 2)) = live_feed n"
  by (simp add: live_defs init_def deque_append_def live_feed_def)

lemma live_feed_simps:
  "candles (live_feed n) = [kline_row (sample_kline 300 2)]"
  "maxlen (live_feed n) = n"
  "ws_ready_event (live_feed n)"
  "missing_records (live_feed n) = int n - 1"
  "end_timestamp (live_feed n) = Inr 300"
  by (simp_all add: live_feed_def missing_records_def end_timestamp_def column0_def sample_defs)

lemma sample_reply:
  "fetch_candles real_of_int (Inr (map sample_reply_row ts)) =
     (if ts = [] then Inl IndexError
      else Inr (map (\<lambda>t. map real_of_int (butlast (sample_reply_row t))) ts))"
proof -
  have "length (sample_reply_row t) = 12" for t
    by (simp add: sample_reply_row_def)
  then show ?thesis
    by (cases ts) (simp_all add: fetch_candles_def list_all_iff)
qed

lemma live_ok_init: "live_ok (init n) d"
  by (simp add: live_ok_def init_def split: ws_data.splits)

lemma sample_row_head:
  "hd (map real_of_int (butlast (sample_reply_row t))) = real_of_int t"
  "column0 (map real_of_int (butlast (sample_reply_row t))) = Inr (real_of_int t)"
  "\<bar>t\<bar> \<le> 9007199254740992 \<Longrightarrow> hd (kline_row (sample_kline t c)) = real_of_int t"
  "\<bar>t\<bar> \<le> 9007199254740992 \<Longrightarrow> column0 (kline_row (sample_kline t c)) = Inr (real_of_int t)"
  by (simp_all add: kline_row_def sample_kline_def sample_reply_row_def column0_def
      float64_of_int_exact)

lemma py_int_numeral: "py_int (numeral v) = numeral v"
  by (simp add: py_int_def)

lemma second_message:
  "deliver1 (live_feed n) (KlineEvent (sample_kline 300 9)) = live_feed n"
  by (simp add: live_defs live_feed_simps sample_row_head py_int_numeral)
     (simp add: sample_kline_def live_feed_def)

lemma during_message:
  "1 < n \<Longrightarrow> deliver1 (live_feed n) (KlineEvent (sample_kline 400 2)) =
     (live_feed n)\<lparr>candles := [kline_row (sample_kline 300 2), kline_row (sample_kline 400 2)]\<rparr>"
  by (simp add: live_defs live_feed_simps sample_row_head py_int_numeral deque_append_def)
     (simp add: sample_kline_def live_feed_def)

lemma ordered_tick:
  "fst (fill_candles_iteration real_of_int (live_feed 4) [KlineEvent (sample_kline 400 2)]
      (Inr (map sample_reply_row [100, 200, 300])) False) =
   (live_feed 4)\<lparr>candles :=
      [map real_of_int (butlast (sample_reply_row 100)),
       map real_of_int (butlast (sample_reply_row 200)),
       kline_row (sample_kline 300 2), kline_row (sample_kline 400 2)]\<rparr>"
  unfolding iteration_feed fill_candles_body_def sample_reply
  by (simp add: live_feed_simps during_message Let_def extend_with_def kept_rows_def
      missing_records_def py_slice_def slice_bound_def deque_extendleft_def deque_appendleft_def)

lemma ordered_pushed:
  "pushed real_of_int (live_feed 4) [KlineEvent (sample_kline 400 2)]
      (Inr (map sample_reply_row [100, 200, 300])) =
   [map real_of_int (butlast (sample_reply_row 100)),
    map real_of_int (butlast (sample_reply_row 200))]"
  unfolding pushed_def sample_reply
  by (simp add: live_feed_simps during_message kept_rows_def missing_records_def
      py_slice_def slice_bound_def)

lemma last_message:
  "deliver1 ((live_feed 4)\<lparr>candles :=
      [map real_of_int (butlast (sample_reply_row 100)),
       map real_of_int (butlast (sample_reply_row 200)),
       kline_row (sample_kline 300 2), kline_row (sample_kline 400 2)]\<rparr>)
     (KlineEvent (sample_kline 500 2)) =
   (live_feed 4)\<lparr>candles :=
      [map real_of_int (butlast (sample_reply_row 200)),
       kline_row (sample_kline 300 2), kline_row (sample_kline 400 2),
       kline_row (sample_kline 500 2)]\<rparr>"
  by (simp add: live_defs live_feed_simps sample_row_head py_int_numeral deque_append_def)
     (simp add: sample_kline_def live_feed_def)

subsection \<open>One backfill task as a run of steps\<close>

lemma body_resume:
  "fst (fill_candles_body to_float s during response) =
     (case fill_begin s of
        None \<Rightarrow> s
      | Some b \<Rightarrow> fill_resume to_float (deliver s during) response)"
  by (auto simp: fill_candles_body_def fill_begin_def fill_resume_def Let_def split: sum.splits)

lemma tasks_run_append:
  "tasks_run to_float c (xs @ ys) = tasks_run to_float (tasks_run to_float c xs) ys"
  by (induction xs arbitrary: c) simp_all

lemma tasks_run_messages:
  "tasks_run to_float (s, pending) (map Message ds) = (deliver s ds, pending)"
  by (induction ds arbitrary: s) (simp_all add: tasks_step_def)

lemma one_task_iteration:
  assumes "pending i = None" and "fill_begin s \<noteq> None \<or> during = []"
  shows "tasks_run to_float (s, pending) (Begin i # map Message during @ [Resume i response])
     = (feed_step to_float s (BackfillTick during response), pending)"
proof (cases "fill_begin s")
  case None
  with assms have "during = []" by simp
  moreover have "pending(i := None) = pending"
    using assms(1) by (simp add: fun_eq_iff)
  ultimately show ?thesis
    using None assms(1)
    by (simp add: tasks_step_def feed_step_def iteration_feed body_resume)
next
  case (Some b)
  have "pending(i := Some b, i := None) = pending"
    using assms(1) by (simp add: fun_eq_iff)
  with Some assms(1) show ?thesis
    by (simp add: tasks_step_def tasks_run_append tasks_run_messages feed_step_def
        iteration_feed body_resume)
qed

subsection \<open>Two runs that break the order\<close>

lemma overlap_first:
  "fill_resume real_of_int (live_feed 4) (Inr (map sample_reply_row [100, 200, 300])) =
   (live_feed 4)\<lparr>candles :=
      [map real_of_int (butlast (sample_reply_row 100)),
       map real_of_int (butlast (sample_reply_row 200)),
       kline_row (sample_kline 300 2)]\<rparr>"
  "kept_rows (live_feed 4)
      (map (\<lambda>t. map real_of_int (butlast (sample_reply_row t))) [100, 200, 300]) =
   [map real_of_int (butlast (sample_reply_row 100)),
    map real_of_int (butlast (sample_reply_row 200))]"
  unfolding fill_resume_def sample_reply
  by (simp_all add: live_feed_simps extend_with_def kept_rows_def py_slice_def slice_bound_def
      deque_extendleft_def deque_appendleft_def)

lemma overlap_second:
  "fill_resume real_of_int
     ((live_feed 4)\<lparr>candles :=
        [map real_of_int (butlast (sample_reply_row 100)),
         map real_of_int (butlast (sample_reply_row 200)),
         kline_row (sample_kline 300 2)]\<rparr>)
     (Inr (map sample_reply_row [100, 200, 300])) =
   (live_feed 4)\<lparr>candles :=
      [map real_of_int (butlast (sample_reply_row 200)),
       map real_of_int (butlast (sample_reply_row 100)),
       map real_of_int (butlast (sample_reply_row 200)),
       kline_row (sample_kline 300 2)]\<rparr>"
  "kept_rows
     ((live_feed 4)\<lparr>candles :=
        [map real_of_int (butlast (sample_reply_row 100)),
         map real_of_int (butlast (sample_reply_row 200)),
         kline_row (sample_kline 300 2)]\<rparr>)
     (map (\<lambda>t. map real_of_int (butlast (sample_reply_row t))) [100, 200, 300]) =
   [map real_of_int (butlast (sample_reply_row 200))]"
  unfolding fill_resume_def sample_reply
  by (simp_all add: live_feed_simps extend_with_def kept_rows_def missing_records_def
      py_slice_def slice_bound_def deque_extendleft_def deque_appendleft_def)

lemma overlap_begin: "fill_begin (live_feed 4) = Some 300"
  by (simp add: fill_begin_def live_feed_simps)

lemma rounded_first:
  "deliver1 (init 3) (KlineEvent (sample_kline 9007199254740992 2)) =
     \<lparr>candles = [kline_row (sample_kline 9007199254740992 2)], maxlen = 3,
      ws_ready_event = True\<rparr>"
  by (simp add: live_defs init_def deque_append_def)

lemma rounded_heads:
  "column0 (kline_row (sample_kline 9007199254740992 2)) = Inr 9007199254740992"
  "hd (kline_row (sample_kline 9007199254740992 2)) = 9007199254740992"
  "hd (kline_row (sample_kline 9007199254740993 2)) = 9007199254740992"
  "k_t (sample_kline 9007199254740993 2) = 9007199254740993"
  by (simp_all add: column0_def kline_row_def sample_kline_def float64_of_int_rounds
      float64_of_int_numeral)

lemma rounded_second:
  "deliver1 \<lparr>candles = [kline_row (sample_kline 9007199254740992 2)], maxlen = 3,
      ws_ready_event = True\<rparr> (KlineEvent (sample_kline 9007199254740993 2)) =
     \<lparr>candles = [kline_row (sample_kline 9007199254740992 2),
                 kline_row (sample_kline 9007199254740993 2)],
      maxlen = 3, ws_ready_event = True\<rparr>"
  by (simp add: live_defs rounded_heads py_int_numeral deque_append_def)

subsection \<open>The invariant in every reachable state\<close>

text \<open>
  Two runs in which the order breaks. In the first, two backfill tasks run, as they do
  after a restart. Both begin an iteration on the buffer 300 and record the boundary
  300; each gets the reply 100, 200, 300. The first to resume pushes 100 and 200; the
  second reads that one record is missing, keeps the row 200 of its reply, which is
  below its boundary, and the buffer becomes 200, 100, 200, 300. In the second run
  there is one task and no backfill: the stream delivers the open times \<open>2 ^ 53\<close> and
  \<open>2 ^ 53 + 1\<close>, the second not older than the first, and both are stored as
  \<open>2 ^ 53\<close>.
\<close>

theorem order_broken_by_overlap_or_rounding:
  "tasks_assumed real_of_int (init 4, idle) overlapping_run
   \<and> map hd (candles (fst (tasks_run real_of_int (init 4, idle) overlapping_run)))
       = [200, 100, 200, 300]
   \<and> \<not> buffer_invariant (fst (tasks_run real_of_int (init 4, idle) overlapping_run))
   \<and> assumed (stated_assumptions real_of_int) real_of_int (init 3) rounded_run
   \<and> map hd (candles (run real_of_int (init 3) rounded_run))
       = [9007199254740992, 9007199254740992]
   \<and> \<not> buffer_invariant (run real_of_int (init 3) rounded_run)"
proof -
  have exact: "exact_open_time (KlineEvent (sample_kline 300 2))"
    by (simp add: exact_open_time_def sample_kline_def)
  have final: "fst (tasks_run real_of_int (init 4, idle) overlapping_run) =
      (live_feed 4)\<lparr>candles :=
        [map real_of_int (butlast (sample_reply_row 200)),
         map real_of_int (butlast (sample_reply_row 100)),
         map real_of_int (butlast (sample_reply_row 200)),
         kline_row (sample_kline 300 2)]\<rparr>"
    using overlap_first(1) overlap_second(1)
    by (simp add: overlapping_run_def tasks_step_def idle_def first_message overlap_begin)
  have ok: "tasks_assumed real_of_int (init 4, idle) overlapping_run"
    using overlap_first overlap_second sample_reply [of "[100, 200, 300]"]
    by (simp add: overlapping_run_def tasks_step_def step_assumptions_def idle_def
        first_message overlap_begin live_ok_init exact sample_row_head)
  have heads: "map hd (candles (fst (tasks_run real_of_int (init 4, idle) overlapping_run)))
       = [200, 100, 200, 300]"
    by (simp add: final sample_row_head)
  then have broken: "\<not> buffer_invariant (fst (tasks_run real_of_int (init 4, idle) overlapping_run))"
    by (simp add: buffer_invariant_def ordered_def)
  have rfinal: "candles (run real_of_int (init 3) rounded_run) =
      [kline_row (sample_kline 9007199254740992 2),
       kline_row (sample_kline 9007199254740993 2)]"
    by (simp add: rounded_run_def feed_step_def rounded_first rounded_second)
  have rok: "assumed (stated_assumptions real_of_int) real_of_int (init 3) rounded_run"
    by (simp add: rounded_run_def feed_step_def rounded_first stated_assumptions_def
        live_ok_init)
       (simp add: live_ok_def rounded_heads)
  have rheads: "map hd (candles (run real_of_int (init 3) rounded_run))
       = [9007199254740992, 9007199254740992]"
    by (simp add: rfinal rounded_heads)
  then have "\<not> buffer_invariant (run real_of_int (init 3) rounded_run)"
    by (simp add: buffer_invariant_def ordered_def)
  with ok heads broken rok rheads show ?thesis
    by blast
qed

text \<open>
  C1, for the feed with one backfill task and open times that a double holds. From an
  empty buffer of capacity \<open>n\<close>, after any sequence of stream messages and backfill
  iterations (with any messages handled while a fetch is awaited) in which every
  message is no older than the tail and has an open time of at most \<open>2 ^ 53\<close> in
  absolute value, and the rows kept by an iteration are below the boundary it recorded
  and come in strictly increasing order of open time, the buffer has at most \<open>n\<close>
  records, every record has an open time, and the open times increase strictly from the
  head to the tail.
\<close>

theorem buffer_invariant_reachable:
  assumes "assumed (interface_assumptions to_float) to_float (init n) evs"
  shows "buffer_invariant (run to_float (init n) evs)
    \<and> length (candles (run to_float (init n) evs)) \<le> n
    \<and> sorted_wrt (<) (map hd (candles (run to_float (init n) evs)))"
proof -
  have inv: "buffer_invariant (run to_float (init n) evs)"
    using init_invariant assms by (rule run_invariant)
  moreover have "maxlen (run to_float (init n) evs) = n"
    by (simp add: run_maxlen init_def)
  ultimately show ?thesis
    by (simp add: buffer_invariant_def ordered_def)
qed

theorem buffer_invariant_reachable_witness:
  "assumed (interface_assumptions real_of_int) real_of_int (init 4) ordered_reply_run
   \<and> buffer_invariant (run real_of_int (init 4) ordered_reply_run)
   \<and> length (candles (run real_of_int (init 4) ordered_reply_run)) \<le> 4
   \<and> map hd (candles (run real_of_int (init 4) ordered_reply_run)) = [200, 300, 400, 500]"
proof -
  have a2: "live_ok (live_feed 4) (KlineEvent (sample_kline 300 9))"
    and a3: "live_ok (live_feed 4) (KlineEvent (sample_kline 400 2))"
    by (simp_all add: live_ok_def live_feed_simps sample_row_head) (simp_all add: sample_kline_def)
  have a4: "live_ok ((live_feed 4)\<lparr>candles :=
      [map real_of_int (butlast (sample_reply_row 100)),
       map real_of_int (butlast (sample_reply_row 200)),
       kline_row (sample_kline 300 2), kline_row (sample_kline 400 2)]\<rparr>)
     (KlineEvent (sample_kline 500 2))"
    by (simp add: live_ok_def sample_row_head) (simp add: sample_kline_def)
  have exact: "exact_open_time (KlineEvent (sample_kline 300 2))"
    "exact_open_time (KlineEvent (sample_kline 300 9))"
    "exact_open_time (KlineEvent (sample_kline 400 2))"
    "exact_open_time (KlineEvent (sample_kline 500 2))"
    by (simp_all add: exact_open_time_def sample_kline_def)
  have ok: "assumed (interface_assumptions real_of_int) real_of_int (init 4) ordered_reply_run"
    using ordered_tick ordered_pushed
    by (simp add: ordered_reply_run_def feed_step_def first_message second_message
        interface_assumptions_def stated_assumptions_def live_ok_init a2 a3 a4 exact
        below_boundary_def live_feed_simps sample_row_head)
  have "map hd (candles (run real_of_int (init 4) ordered_reply_run)) = [200, 300, 400, 500]"
    using ordered_tick
    by (simp add: ordered_reply_run_def feed_step_def first_message second_message
        last_message sample_row_head)
  with ok buffer_invariant_reachable [OF ok] show ?thesis
    by blast
qed

section \<open>The request of a backfill iteration\<close>

lemma deque_append_nonempty: "0 < n \<Longrightarrow> deque_append n xs x \<noteq> []"
  by (cases xs) (auto simp: deque_append_def Let_def)

lemma deliver1_gate:
  assumes "ws_ready_event s \<longrightarrow> candles s \<noteq> [] \<or> maxlen s = 0"
  shows "ws_ready_event (deliver1 s d) \<longrightarrow> candles (deliver1 s d) \<noteq> [] \<or> maxlen (deliver1 s d) = 0"
proof (cases "maxlen s = 0")
  case True
  then show ?thesis by (simp add: deliver1_maxlen)
next
  case False
  then have pos: "0 < maxlen s" by simp
  show ?thesis
  proof (cases "candles s = []")
    case True
    with assms False have "\<not> ws_ready_event s" by auto
    with True show ?thesis
      by (auto simp: deliver1_def process_websocket_message_def deque_append_nonempty [OF pos]
          split: ws_data.splits)
  next
    case False
    with deliver1_length [of s d] show ?thesis by auto
  qed
qed

lemma deliver_gate:
  "ws_ready_event s \<longrightarrow> candles s \<noteq> [] \<or> maxlen s = 0 \<Longrightarrow>
   ws_ready_event (deliver s ds) \<longrightarrow> candles (deliver s ds) \<noteq> [] \<or> maxlen (deliver s ds) = 0"
proof (induction ds arbitrary: s)
  case Nil
  then show ?case by simp
next
  case (Cons d ds)
  from Cons.prems have "ws_ready_event (deliver1 s d) \<longrightarrow>
      candles (deliver1 s d) \<noteq> [] \<or> maxlen (deliver1 s d) = 0"
    by (rule deliver1_gate)
  then show ?case
    using Cons.IH by simp
qed

lemma extend_with_gate:
  assumes "ws_ready_event s \<longrightarrow> candles s \<noteq> [] \<or> maxlen s = 0"
  shows "ws_ready_event (extend_with s rows) \<longrightarrow>
     candles (extend_with s rows) \<noteq> [] \<or> maxlen (extend_with s rows) = 0"
proof -
  have "ws_ready_event (extend_with s rows) = ws_ready_event s"
    by (simp add: extend_with_def)
  with assms extend_with_length [of s rows] show ?thesis
    by (auto simp: extend_with_maxlen)
qed

lemma feed_step_gate:
  assumes "ws_ready_event s \<longrightarrow> candles s \<noteq> [] \<or> maxlen s = 0"
  shows "ws_ready_event (feed_step to_float s ev) \<longrightarrow>
     candles (feed_step to_float s ev) \<noteq> [] \<or> maxlen (feed_step to_float s ev) = 0"
proof (cases ev)
  case (LiveMessage d)
  with deliver1_gate [OF assms, of d] show ?thesis
    by (simp add: feed_step_def)
next
  case (BackfillTick during response)
  note d = deliver_gate [OF assms, of during]
  from body_cases [of to_float s during response] show ?thesis
  proof (elim disjE exE)
    assume "fst (fill_candles_body to_float s during response) = s"
    with BackfillTick assms show ?thesis
      by (simp add: feed_step_def iteration_feed)
  next
    assume "fst (fill_candles_body to_float s during response) = deliver s during"
    with BackfillTick d show ?thesis
      by (simp add: feed_step_def iteration_feed)
  next
    fix rows
    assume "fst (fill_candles_body to_float s during response) = extend_with (deliver s during) rows"
    with BackfillTick extend_with_gate [OF d, of rows] show ?thesis
      by (simp add: feed_step_def iteration_feed)
  qed
qed

lemma run_gate:
  "ws_ready_event s \<longrightarrow> candles s \<noteq> [] \<or> maxlen s = 0 \<Longrightarrow>
   ws_ready_event (run to_float s evs) \<longrightarrow>
     candles (run to_float s evs) \<noteq> [] \<or> maxlen (run to_float s evs) = 0"
proof (induction evs arbitrary: s)
  case Nil
  then show ?case by simp
next
  case (Cons ev evs)
  from Cons.prems have "ws_ready_event (feed_step to_float s ev) \<longrightarrow>
     candles (feed_step to_float s ev) \<noteq> [] \<or> maxlen (feed_step to_float s ev) = 0"
    by (rule feed_step_gate)
  then show ?case
    using Cons.IH by simp
qed

lemma iteration_requests:
  "requests (fst (snd (fill_candles_iteration to_float s during response c))) =
     (if ws_ready_event s \<and> 0 < missing_records s then
        (case end_timestamp s of
           Inl e \<Rightarrow> []
         | Inr ts \<Rightarrow> [FetchCandles ts (missing_records s + 1)])
      else [])"
  by (auto simp: fill_candles_iteration_def fill_candles_body_def requests_def Let_def
      split: sum.splits)

lemma iteration_sent:
  "sent (fst (snd (fill_candles_iteration to_float s during response c))) =
     (if ws_ready_event s \<and> 0 < missing_records s then
        (case end_timestamp s of
           Inl e \<Rightarrow> []
         | Inr ts \<Rightarrow> [fetch_params None (Some ts) (missing_records s + 1)])
      else [])"
  by (auto simp: fill_candles_iteration_def fill_candles_body_def Let_def split: sum.splits)

lemma set_deque_append: "set (deque_append n xs x) \<subseteq> insert x (set xs)"
  by (cases xs) (auto simp: deque_append_def Let_def)

lemma set_deque_appendleft: "set (deque_appendleft n xs x) \<subseteq> insert x (set xs)"
  by (auto simp: deque_appendleft_def Let_def dest: in_set_butlastD)

lemma set_deque_extendleft: "set (deque_extendleft n xs ys) \<subseteq> set xs \<union> set ys"
  unfolding deque_extendleft_def
proof (induction ys arbitrary: xs)
  case Nil
  show ?case by simp
next
  case (Cons y ys)
  have "set (foldl (deque_appendleft n) (deque_appendleft n xs y) ys)
      \<subseteq> set (deque_appendleft n xs y) \<union> set ys"
    by (rule Cons.IH)
  with set_deque_appendleft [of n xs y] show ?case by auto
qed

lemma set_py_slice: "set (py_slice xs i j) \<subseteq> set xs"
  by (auto simp: py_slice_def Let_def dest: in_set_takeD in_set_dropD)

lemma deliver1_rows:
  assumes "list_all (\<lambda>r. r \<noteq> []) (candles s)"
  shows "list_all (\<lambda>r. r \<noteq> []) (candles (deliver1 s d))"
proof -
  from assms have old: "r \<noteq> []" if "r \<in> set (candles s)" for r
    using that by (simp add: list_all_iff)
  from deliver1_cases [of s d] show ?thesis
  proof
    assume "candles (deliver1 s d) = candles s"
    then show ?thesis
      using assms by (simp only:)
  next
    assume "\<exists>k. d = KlineEvent k \<and>
      candles (deliver1 s d) = deque_append (maxlen s) (candles s) (kline_row k)"
    then obtain k where
      eq: "candles (deliver1 s d) = deque_append (maxlen s) (candles s) (kline_row k)"
      by (elim exE conjE)
    have row: "kline_row k \<noteq> []"
      by (simp add: kline_row_def)
    have sub: "set (deque_append (maxlen s) (candles s) (kline_row k))
        \<subseteq> insert (kline_row k) (set (candles s))"
      by (rule set_deque_append)
    have "r \<noteq> []" if "r \<in> set (candles (deliver1 s d))" for r
    proof -
      from that sub have "r = kline_row k \<or> r \<in> set (candles s)"
        unfolding eq by (simp add: subset_iff)
      then show ?thesis
        using row old by (elim disjE) simp_all
    qed
    then show ?thesis
      by (simp add: list_all_iff)
  qed
qed

lemma deliver_rows:
  "list_all (\<lambda>r. r \<noteq> []) (candles s) \<Longrightarrow> list_all (\<lambda>r. r \<noteq> []) (candles (deliver s ds))"
  by (induction ds arbitrary: s) (simp_all add: deliver1_rows)

lemma extend_with_rows:
  assumes "list_all (\<lambda>r. r \<noteq> []) (candles s)" and "list_all (\<lambda>r. r \<noteq> []) rows"
  shows "list_all (\<lambda>r. r \<noteq> []) (candles (extend_with s rows))"
proof -
  have "set (candles (extend_with s rows)) \<subseteq> set (candles s) \<union> set (kept_rows s rows)"
    using set_deque_extendleft [of "maxlen s" "candles s" "rev (kept_rows s rows)"]
    by (simp add: extend_with_def)
  moreover have "set (kept_rows s rows) \<subseteq> set rows"
    by (simp add: kept_rows_def set_py_slice)
  ultimately show ?thesis
    using assms by (auto simp: list_all_iff)
qed

lemma fetch_candles_rows:
  assumes "list_all (\<lambda>r. 2 \<le> length r) raw" and "fetch_candles to_float (Inr raw) = Inr rows"
  shows "list_all (\<lambda>r. r \<noteq> []) rows"
proof -
  from assms(2) have "rows = map (\<lambda>r. map to_float (butlast r)) raw"
    by (auto simp: fetch_candles_def split: if_splits)
  moreover have "butlast r \<noteq> []" if "2 \<le> length r" for r :: "'a list"
    using that by (cases r) (auto split: if_splits)
  ultimately show ?thesis
    using assms(1) by (auto simp: list_all_iff)
qed

lemma feed_step_rows:
  assumes "list_all (\<lambda>r. r \<noteq> []) (candles s)" and "wide_reply ev"
  shows "list_all (\<lambda>r. r \<noteq> []) (candles (feed_step to_float s ev))"
proof (cases ev)
  case (LiveMessage d)
  with assms(1) show ?thesis
    by (simp add: feed_step_def deliver1_rows)
next
  case (BackfillTick during response)
  note d = deliver_rows [OF assms(1), of during]
  have step: "feed_step to_float s ev = fst (fill_candles_body to_float s during response)"
    using BackfillTick by (simp add: feed_step_def iteration_feed)
  show ?thesis
  proof (cases "fill_begin s")
    case None
    with assms(1) step show ?thesis
      by (simp add: body_resume)
  next
    case (Some b)
    show ?thesis
    proof (cases "fetch_candles to_float response")
      case (Inl e)
      with Some d step show ?thesis
        by (simp add: body_resume fill_resume_def)
    next
      case (Inr rows)
      then obtain raw where raw: "response = Inr raw"
        by (cases response) (auto simp: fetch_candles_def)
      with assms(2) BackfillTick have "list_all (\<lambda>r. 2 \<le> length r) raw"
        by (simp add: wide_reply_def)
      with Inr raw have "list_all (\<lambda>r. r \<noteq> []) rows"
        by (intro fetch_candles_rows [of raw to_float]) simp_all
      with d have "list_all (\<lambda>r. r \<noteq> []) (candles (extend_with (deliver s during) rows))"
        by (rule extend_with_rows)
      with Some Inr step show ?thesis
        by (simp add: body_resume fill_resume_def)
    qed
  qed
qed

lemma run_rows:
  "list_all (\<lambda>r. r \<noteq> []) (candles s) \<Longrightarrow> list_all wide_reply evs \<Longrightarrow>
   list_all (\<lambda>r. r \<noteq> []) (candles (run to_float s evs))"
  by (induction evs arbitrary: s) (simp_all add: feed_step_rows)

lemma zero_message:
  "run real_of_int (init 3) [LiveMessage (KlineEvent (sample_kline 0 2))] =
     \<lparr>candles = [kline_row (sample_kline 0 2)], maxlen = 3, ws_ready_event = True\<rparr>"
  by (simp add: feed_step_def live_defs init_def deque_append_def)

text \<open>
  The request does not always carry the open time of the head. The stream delivers a
  kline with the open time 0; the event is set and two records are missing. The
  iteration calls \<open>fetch_candles\<close> with \<open>end_time = 0\<close>, which is false as a condition,
  so the request has the limit 3 and no \<open>endTime\<close>.
\<close>

theorem request_without_end_time:
  "ws_ready_event (run real_of_int (init 3) [LiveMessage (KlineEvent (sample_kline 0 2))])
   \<and> 0 < missing_records (run real_of_int (init 3) [LiveMessage (KlineEvent (sample_kline 0 2))])
   \<and> map hd (candles (run real_of_int (init 3) [LiveMessage (KlineEvent (sample_kline 0 2))]))
       = [0]
   \<and> sent (fst (snd (fill_candles_iteration real_of_int
        (run real_of_int (init 3) [LiveMessage (KlineEvent (sample_kline 0 2))]) []
        (Inr [sample_reply_row 0]) False)))
       = [\<lparr>p_limit = 3, p_startTime = None, p_endTime = None\<rparr>]"
  unfolding zero_message iteration_sent
  by (simp add: missing_records_def end_timestamp_def column0_def fetch_params_def
      kline_row_def sample_kline_def float64_of_int_numeral)

text \<open>
  C6, with the request as it is sent. In every state that the feed reaches from its
  construction, the replies having at least two columns: when the event is set and
  records are missing, the buffer has a head record with an open time \<open>t\<close>, and the
  iteration makes exactly one call of \<open>fetch_candles\<close>, with \<open>end_time = t\<close> and
  \<open>limit = missing + 1\<close>; the request has this limit, no \<open>startTime\<close>, and the
  \<open>endTime\<close> \<open>t\<close> unless \<open>t\<close> is 0, when it has none. When the event is not set or
  nothing is missing the iteration makes no call.
\<close>

theorem backfill_request:
  assumes "s = run to_float (init n) evs" and "list_all wide_reply evs"
  shows "(ws_ready_event s \<and> 0 < missing_records s \<longrightarrow>
           (\<exists>t cols rest. candles s = (t # cols) # rest
              \<and> requests (fst (snd (fill_candles_iteration to_float s during response c)))
                  = [FetchCandles t (missing_records s + 1)]
              \<and> sent (fst (snd (fill_candles_iteration to_float s during response c)))
                  = [\<lparr>p_limit = missing_records s + 1, p_startTime = None,
                      p_endTime = (if t = 0 then None else Some t)\<rparr>]))
    \<and> (\<not> ws_ready_event s \<or> missing_records s \<le> 0 \<longrightarrow>
         requests (fst (snd (fill_candles_iteration to_float s during response c))) = []
         \<and> sent (fst (snd (fill_candles_iteration to_float s during response c))) = [])"
proof (intro conjI impI)
  assume a: "ws_ready_event s \<and> 0 < missing_records s"
  have "ws_ready_event (init n) \<longrightarrow> candles (init n) \<noteq> [] \<or> maxlen (init n) = 0"
    by (simp add: init_def)
  then have "ws_ready_event s \<longrightarrow> candles s \<noteq> [] \<or> maxlen s = 0"
    unfolding assms(1) by (rule run_gate)
  with a have nonempty: "candles s \<noteq> []"
    by (auto simp: missing_records_def)
  have "list_all (\<lambda>r. r \<noteq> []) (candles (init n))"
    by (simp add: init_def)
  then have "list_all (\<lambda>r. r \<noteq> []) (candles s)"
    unfolding assms(1) using assms(2) by (rule run_rows)
  with nonempty obtain t cols rest where shape: "candles s = (t # cols) # rest"
    by (cases "candles s"; cases "hd (candles s)") auto
  with a have "requests (fst (snd (fill_candles_iteration to_float s during response c)))
        = [FetchCandles t (missing_records s + 1)]"
    and "sent (fst (snd (fill_candles_iteration to_float s during response c)))
        = [\<lparr>p_limit = missing_records s + 1, p_startTime = None,
            p_endTime = (if t = 0 then None else Some t)\<rparr>]"
    by (simp_all add: iteration_requests iteration_sent end_timestamp_def column0_def
        fetch_params_def)
  with shape show "\<exists>t cols rest. candles s = (t # cols) # rest
      \<and> requests (fst (snd (fill_candles_iteration to_float s during response c)))
          = [FetchCandles t (missing_records s + 1)]
      \<and> sent (fst (snd (fill_candles_iteration to_float s during response c)))
          = [\<lparr>p_limit = missing_records s + 1, p_startTime = None,
              p_endTime = (if t = 0 then None else Some t)\<rparr>]"
    by blast
next
  assume "\<not> ws_ready_event s \<or> missing_records s \<le> 0"
  then show "requests (fst (snd (fill_candles_iteration to_float s during response c))) = []"
    and "sent (fst (snd (fill_candles_iteration to_float s during response c))) = []"
    by (auto simp: iteration_requests iteration_sent)
qed

theorem backfill_request_witness:
  "live_feed 3 = run real_of_int (init 3) [LiveMessage (KlineEvent (sample_kline 300 2))]
   \<and> list_all wide_reply [LiveMessage (KlineEvent (sample_kline 300 2)) :: int event]
   \<and> ws_ready_event (live_feed 3) \<and> 0 < missing_records (live_feed 3)
   \<and> requests (fst (snd (fill_candles_iteration real_of_int (live_feed 3) []
        (Inr [sample_reply_row 100, sample_reply_row 200, sample_reply_row 300]) False)))
       = [FetchCandles 300 3]
   \<and> sent (fst (snd (fill_candles_iteration real_of_int (live_feed 3) []
        (Inr [sample_reply_row 100, sample_reply_row 200, sample_reply_row 300]) False)))
       = [\<lparr>p_limit = 3, p_startTime = None, p_endTime = Some 300\<rparr>]
   \<and> init 3 = run real_of_int (init 3) []
   \<and> list_all wide_reply ([] :: int event list)
   \<and> \<not> ws_ready_event (init 3)
   \<and> requests (fst (snd (fill_candles_iteration real_of_int (init 3) []
        (Inr [sample_reply_row 100, sample_reply_row 200, sample_reply_row 300]) False))) = []"
proof -
  have r1: "live_feed 3 = run real_of_int (init 3) [LiveMessage (KlineEvent (sample_kline 300 2))]"
    by (simp add: feed_step_def first_message)
  have w1: "list_all wide_reply [LiveMessage (KlineEvent (sample_kline 300 2)) :: int event]"
    by (simp add: wide_reply_def)
  have h1: "ws_ready_event (live_feed 3) \<and> 0 < missing_records (live_feed 3)"
    by (simp add: live_feed_simps)
  have shape: "candles (live_feed 3) = (t # cols) # rest \<Longrightarrow> t = 300" for t cols rest
    using sample_row_head(3) [of 300 2] by (simp add: live_feed_simps)
  have r2: "init 3 = run real_of_int (init 3) []"
    by simp
  have w2: "list_all wide_reply ([] :: int event list)"
    by simp
  have h2: "\<not> ws_ready_event (init 3)"
    by (simp add: init_def)
  have m: "missing_records (live_feed 3) + 1 = 3"
    by (simp add: live_feed_simps)
  from backfill_request [OF r1 w1, of "[]"
      "Inr [sample_reply_row 100, sample_reply_row 200, sample_reply_row 300]" False] h1
  obtain t cols rest where "candles (live_feed 3) = (t # cols) # rest"
    and "requests (fst (snd (fill_candles_iteration real_of_int (live_feed 3) []
        (Inr [sample_reply_row 100, sample_reply_row 200, sample_reply_row 300]) False)))
       = [FetchCandles t (missing_records (live_feed 3) + 1)]"
    and "sent (fst (snd (fill_candles_iteration real_of_int (live_feed 3) []
        (Inr [sample_reply_row 100, sample_reply_row 200, sample_reply_row 300]) False)))
       = [\<lparr>p_limit = missing_records (live_feed 3) + 1, p_startTime = None,
           p_endTime = (if t = 0 then None else Some t)\<rparr>]"
    by blast
  with shape m have c1: "requests (fst (snd (fill_candles_iteration real_of_int (live_feed 3) []
        (Inr [sample_reply_row 100, sample_reply_row 200, sample_reply_row 300]) False)))
       = [FetchCandles 300 3]"
    and c2: "sent (fst (snd (fill_candles_iteration real_of_int (live_feed 3) []
        (Inr [sample_reply_row 100, sample_reply_row 200, sample_reply_row 300]) False)))
       = [\<lparr>p_limit = 3, p_startTime = None, p_endTime = Some 300\<rparr>]"
    by simp_all
  from backfill_request [OF r2 w2, of "[]"
      "Inr [sample_reply_row 100, sample_reply_row 200, sample_reply_row 300]" False] h2
  have "requests (fst (snd (fill_candles_iteration real_of_int (init 3) []
        (Inr [sample_reply_row 100, sample_reply_row 200, sample_reply_row 300]) False))) = []"
    by simp
  with r1 w1 h1 c1 c2 r2 w2 h2 show ?thesis
    by blast
qed

section \<open>Cancellation\<close>

lemmas listen_defs =
  listen_iteration_def listen_try_def listen_except_def on_order_stream_interruption_def
  subscribe_channels_def

lemma listen_iteration_outcome:
  "snd (snd (snd (listen_iteration s ws env))) =
     (case listen_except (sleep_cancelled env) (snd (snd (snd (listen_try s ws env)))) of
        (tr2, Blocked) \<Rightarrow> Blocked
      | (tr2, r2) \<Rightarrow>
          (case (if fst (snd (listen_try s ws env)) then close_raises env else None) of
             None \<Rightarrow> r2
           | Some e \<Rightarrow> Raised e))"
  by (auto simp: listen_iteration_def on_order_stream_interruption_def
      split: prod.splits outcome.splits option.splits)

lemma cancellation_points:
  "connect_raises env = Some CancelledError \<Longrightarrow> cancelled_in_listen s ws env"
  "connect_raises env = None \<Longrightarrow> send_raises env = Some CancelledError \<Longrightarrow>
     cancelled_in_listen s ws env"
  "connect_raises env = None \<Longrightarrow> send_raises env = Some e \<Longrightarrow> \<not> ws_ready_event s \<Longrightarrow>
     wait_cancelled env \<Longrightarrow> cancelled_in_listen s ws env"
  "connect_raises env = None \<Longrightarrow> send_raises env = None \<Longrightarrow>
     process_websocket_messages s (stream env) = (s', None) \<Longrightarrow>
     stream_raises env = Some CancelledError \<Longrightarrow> cancelled_in_listen s ws env"
  "snd (snd (snd (listen_try s ws env))) = Raised e \<Longrightarrow> e \<noteq> ConnectionError \<Longrightarrow>
     sleep_cancelled env \<Longrightarrow> cancelled_in_listen s ws env"
  by (auto simp: cancelled_in_listen_def listen_try_def subscribe_channels_def
      split: prod.splits outcome.splits option.splits)

text \<open>
  The \<open>finally\<close> clause of the listen loop awaits the disconnection. When the stream
  is cancelled and the disconnection then raises, the exception of the disconnection
  leaves the loop in place of the cancellation.
\<close>

theorem cancellation_replaced_by_close_failure:
  "cancelled_in_listen (init 3) False
     (quiet_env\<lparr>stream_raises := Some CancelledError, close_raises := Some ConnectionError\<rparr>)
   \<and> listen_iteration (init 3) False
     (quiet_env\<lparr>stream_raises := Some CancelledError, close_raises := Some ConnectionError\<rparr>)
     = (init 3, True, [Connect, Subscribe, LogInfo, Close], Raised ConnectionError)"
  by (simp add: cancelled_in_listen_def listen_defs quiet_env_def)

text \<open>
  C8, up to the \<open>finally\<close> clause. In the backfill loop a cancellation of the fetch
  leaves the iteration as \<open>CancelledError\<close>, with nothing logged and no sleep, and so
  does a cancellation of the sleep. In \<open>_subscribe_channels\<close> a cancellation of the
  send, or of the wait on the readiness event, leaves the coroutine as
  \<open>CancelledError\<close>. In the listen loop a cancellation raised before the \<open>finally\<close>
  clause never lets the iteration complete (there is no retry), and it leaves the loop
  as \<open>CancelledError\<close> unless the disconnection of the \<open>finally\<close> clause raises, which
  then leaves the loop instead.
\<close>

theorem cancellation_propagates:
  "(ws_ready_event s \<and> 0 < missing_records s \<and> end_timestamp s = Inr ts \<longrightarrow>
      snd (fill_candles_iteration to_float s during (Inl CancelledError) c)
        = ([FetchCandles ts (missing_records s + 1)], Raised CancelledError))
   \<and> (snd (snd (fill_candles_body to_float s during response)) = Done \<longrightarrow>
      snd (snd (fill_candles_iteration to_float s during response True)) = Raised CancelledError)
   \<and> subscribe_channels s (Some CancelledError) w = ([Subscribe], Raised CancelledError)
   \<and> (e \<noteq> CancelledError \<and> \<not> ws_ready_event s \<longrightarrow>
      subscribe_channels s (Some e) True
        = ([Subscribe, LogError, WaitReady], Raised CancelledError))
   \<and> (cancelled_in_listen s ws env \<longrightarrow>
      snd (snd (snd (listen_iteration s ws env))) \<noteq> Done
      \<and> snd (snd (snd (listen_iteration s ws env))) =
          (case (if fst (snd (listen_try s ws env)) then close_raises env else None) of
             None \<Rightarrow> Raised CancelledError
           | Some e' \<Rightarrow> Raised e'))"
proof (intro conjI impI)
  assume "ws_ready_event s \<and> 0 < missing_records s \<and> end_timestamp s = Inr ts"
  then show "snd (fill_candles_iteration to_float s during (Inl CancelledError) c)
        = ([FetchCandles ts (missing_records s + 1)], Raised CancelledError)"
    by (simp add: fill_candles_iteration_def fill_candles_body_def fetch_candles_def Let_def)
next
  assume "snd (snd (fill_candles_body to_float s during response)) = Done"
  then show "snd (snd (fill_candles_iteration to_float s during response True))
      = Raised CancelledError"
    by (auto simp: fill_candles_iteration_def split: prod.splits outcome.splits)
next
  show "subscribe_channels s (Some CancelledError) w = ([Subscribe], Raised CancelledError)"
    by (simp add: subscribe_channels_def)
next
  assume "e \<noteq> CancelledError \<and> \<not> ws_ready_event s"
  then show "subscribe_channels s (Some e) True
      = ([Subscribe, LogError, WaitReady], Raised CancelledError)"
    by (simp add: subscribe_channels_def)
next
  assume c: "cancelled_in_listen s ws env"
  then obtain e where r: "snd (snd (snd (listen_try s ws env))) = Raised e"
    and e: "e = CancelledError \<or> (e \<noteq> ConnectionError \<and> sleep_cancelled env)"
    by (auto simp: cancelled_in_listen_def split: prod.splits outcome.splits)
  from e have "snd (listen_except (sleep_cancelled env) (Raised e)) = Raised CancelledError"
    by (auto simp: listen_except_def)
  with r show eq: "snd (snd (snd (listen_iteration s ws env))) =
          (case (if fst (snd (listen_try s ws env)) then close_raises env else None) of
             None \<Rightarrow> Raised CancelledError
           | Some e' \<Rightarrow> Raised e')"
    by (auto simp: listen_iteration_outcome split: prod.splits outcome.splits option.splits)
  then show "snd (snd (snd (listen_iteration s ws env))) \<noteq> Done"
    by (auto split: option.splits if_splits)
qed

theorem cancellation_propagates_witness:
  "ws_ready_event (live_feed 3) \<and> 0 < missing_records (live_feed 3)
   \<and> end_timestamp (live_feed 3) = Inr 300
   \<and> snd (fill_candles_iteration real_of_int (live_feed 3) [] (Inl CancelledError) False)
       = ([FetchCandles 300 3], Raised CancelledError)
   \<and> snd (snd (fill_candles_body real_of_int (init 3) [] (Inl OtherException))) = Done
   \<and> snd (snd (fill_candles_iteration real_of_int (init 3) [] (Inl OtherException) True))
       = Raised CancelledError
   \<and> subscribe_channels (init 3) (Some CancelledError) False = ([Subscribe], Raised CancelledError)
   \<and> OtherException \<noteq> CancelledError \<and> \<not> ws_ready_event (init 3)
   \<and> subscribe_channels (init 3) (Some OtherException) True
       = ([Subscribe, LogError, WaitReady], Raised CancelledError)
   \<and> cancelled_in_listen (init 3) False (quiet_env\<lparr>stream_raises := Some CancelledError\<rparr>)
   \<and> snd (snd (snd (listen_iteration (init 3) False
        (quiet_env\<lparr>stream_raises := Some CancelledError\<rparr>)))) = Raised CancelledError"
proof -
  let ?env = "quiet_env\<lparr>stream_raises := Some CancelledError\<rparr>"
  have h1: "ws_ready_event (live_feed 3) \<and> 0 < missing_records (live_feed 3)
      \<and> end_timestamp (live_feed 3) = Inr 300"
    by (simp add: live_feed_simps)
  have h2: "snd (snd (fill_candles_body real_of_int (init 3) [] (Inl OtherException))) = Done"
    by (simp add: fill_candles_body_def init_def)
  have h4: "OtherException \<noteq> CancelledError \<and> \<not> ws_ready_event (init 3)"
    by (simp add: init_def)
  have h5: "cancelled_in_listen (init 3) False ?env"
    by (simp add: cancelled_in_listen_def listen_defs quiet_env_def)
  have close: "(if fst (snd (listen_try (init 3) False ?env)) then close_raises ?env else None) = None"
    by (simp add: quiet_env_def)
  have m: "missing_records (live_feed 3) + 1 = 3"
    by (simp add: live_feed_simps)
  from cancellation_propagates [of "live_feed 3" 300 real_of_int "[]" False] h1 m
  have c1: "snd (fill_candles_iteration real_of_int (live_feed 3) [] (Inl CancelledError) False)
       = ([FetchCandles 300 3], Raised CancelledError)"
    by simp
  from cancellation_propagates
    [of "init 3" _ real_of_int "[]" _ "Inl OtherException" False OtherException False ?env]
    h2 h4 h5 close
  have "snd (snd (fill_candles_iteration real_of_int (init 3) [] (Inl OtherException) True))
       = Raised CancelledError
   \<and> subscribe_channels (init 3) (Some CancelledError) False = ([Subscribe], Raised CancelledError)
   \<and> subscribe_channels (init 3) (Some OtherException) True
       = ([Subscribe, LogError, WaitReady], Raised CancelledError)
   \<and> snd (snd (snd (listen_iteration (init 3) False ?env))) = Raised CancelledError"
    by simp
  with c1 h1 h2 h4 h5 show ?thesis
    by blast
qed

section \<open>Reconnection\<close>

lemma listen_iteration_starts:
  "\<exists>rest. fst (snd (snd (listen_iteration s ws env))) = Connect # rest"
  by (auto simp: listen_defs split: prod.splits outcome.splits option.splits)

lemma listen_loop_starts:
  "\<exists>rest. fst (snd (listen_for_subscriptions s ws (env # envs))) = Connect # rest"
proof -
  obtain s' ws' tr r where it: "listen_iteration s ws env = (s', ws', tr, r)"
    by (cases "listen_iteration s ws env") auto
  with listen_iteration_starts [of s ws env] obtain rest where tr: "tr = Connect # rest"
    by auto
  show ?thesis
  proof (cases r)
    case Done
    obtain s'' tr' r' where "listen_for_subscriptions s' ws' envs = (s'', tr', r')"
      by (cases "listen_for_subscriptions s' ws' envs") auto
    with it tr Done show ?thesis by simp
  next
    case (Raised e)
    with it tr show ?thesis by simp
  next
    case Blocked
    with it tr show ?thesis by simp
  qed
qed

text \<open>
  A failure of the subscription before the readiness event is set: the coroutine waits
  on the event, which only the listen loop itself sets, so the loop stays suspended,
  with no sleep and no further connection attempt.
\<close>

theorem subscribe_failure_before_ready_blocks:
  "listen_for_subscriptions (init 3) False
     [quiet_env\<lparr>send_raises := Some OtherException\<rparr>, quiet_env]
   = (init 3, [Connect, Subscribe, LogError, WaitReady], Blocked)"
  by (simp add: listen_defs quiet_env_def init_def)

text \<open>A failure of the disconnection ends the loop as well.\<close>

theorem close_failure_ends_reconnect_loop:
  "listen_for_subscriptions (init 3) False
     [quiet_env\<lparr>stream_raises := Some ConnectionError, close_raises := Some OtherException\<rparr>,
      quiet_env]
   = (init 3, [Connect, Subscribe, LogInfo, LogWarning, Close], Raised OtherException)"
  by (simp add: listen_defs quiet_env_def)

text \<open>
  C9, with the readiness event and the disconnection taken into account. When the
  stream ends in \<open>ConnectionError\<close> the iteration logs a warning and attempts the
  disconnection, with no sleep; it completes unless the disconnection raises. When the
  send of the subscription raises an exception that is neither a cancellation nor a
  \<open>ConnectionError\<close> and the readiness event is set, the failure is logged, the wait
  on the event returns, the failure is raised again, the loop logs it, sleeps once for
  1 second and attempts the disconnection. \<open>_subscribe_channels\<close> logs any failure of
  the send other than a cancellation and waits on the event before raising it again;
  when the event is not set it stays suspended until cancelled. After an iteration
  that completes, the next action of the loop is a connection attempt.
\<close>

theorem reconnect_delays:
  "(connect_raises env = None \<and> send_raises env = None
      \<and> process_websocket_messages s (stream env) = (s', None)
      \<and> stream_raises env = Some ConnectionError \<longrightarrow>
        listen_iteration s ws env =
          (s', True, [Connect, Subscribe, LogInfo, LogWarning, Close],
           case close_raises env of None \<Rightarrow> Done | Some e' \<Rightarrow> Raised e'))
   \<and> (connect_raises env = None \<and> send_raises env = Some e
      \<and> e \<noteq> CancelledError \<and> e \<noteq> ConnectionError \<and> ws_ready_event s \<longrightarrow>
        listen_iteration s ws env =
          (s, True, [Connect, Subscribe, LogError, WaitReady, LogException, Sleep 1, Close],
           case close_raises env of
             Some e' \<Rightarrow> Raised e'
           | None \<Rightarrow> if sleep_cancelled env then Raised CancelledError else Done))
   \<and> (e \<noteq> CancelledError \<longrightarrow>
        subscribe_channels s (Some e) w =
          ([Subscribe, LogError, WaitReady],
           if ws_ready_event s then Raised e
           else if w then Raised CancelledError else Blocked))
   \<and> (listen_iteration s ws env = (s1, ws1, tr, Done) \<longrightarrow>
        (\<exists>rest. fst (snd (listen_for_subscriptions s ws (env # env' # envs)))
           = tr @ Connect # rest))"
proof (intro conjI impI)
  assume "connect_raises env = None \<and> send_raises env = None
      \<and> process_websocket_messages s (stream env) = (s', None)
      \<and> stream_raises env = Some ConnectionError"
  then show "listen_iteration s ws env =
          (s', True, [Connect, Subscribe, LogInfo, LogWarning, Close],
           case close_raises env of None \<Rightarrow> Done | Some e' \<Rightarrow> Raised e')"
    by (simp add: listen_defs split: option.splits)
next
  assume "connect_raises env = None \<and> send_raises env = Some e
      \<and> e \<noteq> CancelledError \<and> e \<noteq> ConnectionError \<and> ws_ready_event s"
  then show "listen_iteration s ws env =
          (s, True, [Connect, Subscribe, LogError, WaitReady, LogException, Sleep 1, Close],
           case close_raises env of
             Some e' \<Rightarrow> Raised e'
           | None \<Rightarrow> if sleep_cancelled env then Raised CancelledError else Done)"
    by (simp add: listen_defs split: option.splits)
next
  assume "e \<noteq> CancelledError"
  then show "subscribe_channels s (Some e) w =
          ([Subscribe, LogError, WaitReady],
           if ws_ready_event s then Raised e
           else if w then Raised CancelledError else Blocked)"
    by (simp add: subscribe_channels_def)
next
  assume it: "listen_iteration s ws env = (s1, ws1, tr, Done)"
  obtain s2 tr2 r2 where next_it: "listen_for_subscriptions s1 ws1 (env' # envs) = (s2, tr2, r2)"
    by (cases "listen_for_subscriptions s1 ws1 (env' # envs)") auto
  with listen_loop_starts [of s1 ws1 env' envs] obtain rest where "tr2 = Connect # rest"
    by auto
  with it next_it have "fst (snd (listen_for_subscriptions s ws (env # env' # envs)))
      = tr @ Connect # rest"
    by simp
  then show "\<exists>rest. fst (snd (listen_for_subscriptions s ws (env # env' # envs)))
      = tr @ Connect # rest"
    by blast
qed

theorem reconnect_delays_witness:
  "connect_raises (quiet_env\<lparr>stream_raises := Some ConnectionError\<rparr>) = None
   \<and> send_raises (quiet_env\<lparr>stream_raises := Some ConnectionError\<rparr>) = None
   \<and> process_websocket_messages (live_feed 3)
        (stream (quiet_env\<lparr>stream_raises := Some ConnectionError\<rparr>)) = (live_feed 3, None)
   \<and> stream_raises (quiet_env\<lparr>stream_raises := Some ConnectionError\<rparr>) = Some ConnectionError
   \<and> listen_iteration (live_feed 3) False (quiet_env\<lparr>stream_raises := Some ConnectionError\<rparr>)
       = (live_feed 3, True, [Connect, Subscribe, LogInfo, LogWarning, Close], Done)
   \<and> fst (snd (listen_for_subscriptions (live_feed 3) False
        [quiet_env\<lparr>stream_raises := Some ConnectionError\<rparr>, quiet_env]))
       = [Connect, Subscribe, LogInfo, LogWarning, Close, Connect, Subscribe, LogInfo, Close]
   \<and> connect_raises (quiet_env\<lparr>send_raises := Some OtherException\<rparr>) = None
   \<and> send_raises (quiet_env\<lparr>send_raises := Some OtherException\<rparr>) = Some OtherException
   \<and> OtherException \<noteq> CancelledError \<and> OtherException \<noteq> ConnectionError
   \<and> ws_ready_event (live_feed 3)
   \<and> listen_iteration (live_feed 3) True (quiet_env\<lparr>send_raises := Some OtherException\<rparr>)
       = (live_feed 3, True,
          [Connect, Subscribe, LogError, WaitReady, LogException, Sleep 1, Close], Done)
   \<and> subscribe_channels (live_feed 3) (Some OtherException) False
       = ([Subscribe, LogError, WaitReady], Raised OtherException)"
proof -
  let ?e1 = "quiet_env\<lparr>stream_raises := Some ConnectionError\<rparr>"
  let ?e2 = "quiet_env\<lparr>send_raises := Some OtherException\<rparr>"
  have h1: "connect_raises ?e1 = None \<and> send_raises ?e1 = None
      \<and> process_websocket_messages (live_feed 3) (stream ?e1) = (live_feed 3, None)
      \<and> stream_raises ?e1 = Some ConnectionError"
    by (simp add: quiet_env_def)
  have h2: "connect_raises ?e2 = None \<and> send_raises ?e2 = Some OtherException
      \<and> OtherException \<noteq> CancelledError \<and> OtherException \<noteq> ConnectionError
      \<and> ws_ready_event (live_feed 3)"
    by (simp add: quiet_env_def live_feed_simps)
  have c1: "close_raises ?e1 = None" and c2: "close_raises ?e2 = None"
    and sl: "\<not> sleep_cancelled ?e2"
    by (simp_all add: quiet_env_def)
  from reconnect_delays [of ?e1 "live_feed 3" "live_feed 3" False] h1 c1
  have r1: "listen_iteration (live_feed 3) False ?e1
       = (live_feed 3, True, [Connect, Subscribe, LogInfo, LogWarning, Close], Done)"
    by simp
  from reconnect_delays [of ?e2 "live_feed 3" _ True OtherException False] h2 c2 sl
  have r2: "listen_iteration (live_feed 3) True ?e2
       = (live_feed 3, True,
          [Connect, Subscribe, LogError, WaitReady, LogException, Sleep 1, Close], Done)
     \<and> subscribe_channels (live_feed 3) (Some OtherException) False
       = ([Subscribe, LogError, WaitReady], Raised OtherException)"
    by simp
  have "listen_iteration (live_feed 3) True quiet_env
      = (live_feed 3, True, [Connect, Subscribe, LogInfo, Close], Done)"
    by (simp add: listen_defs quiet_env_def)
  with r1 have r3: "fst (snd (listen_for_subscriptions (live_feed 3) False [?e1, quiet_env]))
       = [Connect, Subscribe, LogInfo, LogWarning, Close, Connect, Subscribe, LogInfo, Close]"
    by simp
  from h1 h2 r1 r2 r3 show ?thesis
    by blast
qed

end
